theory Spec2Isabelle
  imports Main "HOL-Library.Sublist"
begin

section \<open>Strings\<close>

text \<open>
  Strings are lists of 8-bit characters, and the model is that of JavaScript strings of
  ASCII characters (code units below 128, \<open>is_ascii\<close>): there a code unit is a code point,
  so \<open>length\<close>, indexing and \<open>for ... of\<close> walk the same characters, and \<open>toUpperCase\<close>
  sends the letters a..z to A..Z and leaves every other character as it is. Beyond ASCII
  JavaScript's \<open>toUpperCase\<close> has further mappings, some of which lengthen a string, and
  \<open>for ... of\<close> takes a surrogate pair as one character where \<open>length\<close> and indexing
  count two; such strings are outside the model.
\<close>

definition lower_letters :: string where
  "lower_letters = ''abcdefghijklmnopqrstuvwxyz''"

definition letters :: string where
  "letters = ''ABCDEFGHIJKLMNOPQRSTUVWXYZ''"

definition toUpperCase_char :: "char \<Rightarrow> char" where
  "toUpperCase_char c = (case map_of (zip lower_letters letters) c of None \<Rightarrow> c | Some u \<Rightarrow> u)"

definition toUpperCase :: "string \<Rightarrow> string" where
  "toUpperCase s = map toUpperCase_char s"

definition is_ascii :: "string \<Rightarrow> bool" where
  "is_ascii s = list_all (\<lambda>c. (of_char c :: nat) < 128) s"

section \<open>Trie (Trie.ts, the second file in src/src/lib/wordSearch.ts)\<close>

text \<open>
  A node owns a map from characters to child nodes, the end-of-word flag and the stored
  word (\<open>null\<close> is \<open>None\<close>). The class \<open>Trie\<close> holds nothing but its root node, so a trie
  is its root. The in-place updates of \<open>insert\<close> become a function that returns the
  updated node.
\<close>

datatype TrieNode =
  TrieNode (children: "char \<Rightarrow> TrieNode option") (isEndOfWord: bool) (node_word: "string option")

definition createNode :: TrieNode where
  "createNode = TrieNode (\<lambda>_. None) False None"

text \<open>The loop of \<open>insert\<close>: \<open>upperWord\<close> is the whole word, the list the characters left.\<close>

fun Trie_insert_loop :: "string \<Rightarrow> string \<Rightarrow> TrieNode \<Rightarrow> TrieNode" where
  "Trie_insert_loop upperWord [] (TrieNode m e w) = TrieNode m True (Some upperWord)"
| "Trie_insert_loop upperWord (c # cs) (TrieNode m e w) =
     TrieNode
       (m(c \<mapsto> Trie_insert_loop upperWord cs (case m c of None \<Rightarrow> createNode | Some t \<Rightarrow> t)))
       e w"

definition Trie_insert :: "string \<Rightarrow> TrieNode \<Rightarrow> TrieNode" where
  "Trie_insert w root = Trie_insert_loop (toUpperCase w) (toUpperCase w) root"

fun Trie_traverse :: "TrieNode \<Rightarrow> string \<Rightarrow> TrieNode option" where
  "Trie_traverse current [] = Some current"
| "Trie_traverse current (c # cs) =
     (case children current c of None \<Rightarrow> None | Some t \<Rightarrow> Trie_traverse t cs)"

definition Trie_search :: "TrieNode \<Rightarrow> string \<Rightarrow> bool" where
  "Trie_search root w =
     (case Trie_traverse root (toUpperCase w) of None \<Rightarrow> False | Some n \<Rightarrow> isEndOfWord n)"

definition Trie_startsWith :: "TrieNode \<Rightarrow> string \<Rightarrow> bool" where
  "Trie_startsWith root p = (Trie_traverse root (toUpperCase p) \<noteq> None)"

definition Trie_getNode :: "TrieNode \<Rightarrow> string \<Rightarrow> TrieNode option" where
  "Trie_getNode root p = Trie_traverse root (toUpperCase p)"

definition Trie_fromWords :: "string list \<Rightarrow> TrieNode" where
  "Trie_fromWords ws = foldl (\<lambda>trie w. Trie_insert w trie) createNode ws"

section \<open>Grid and generator (src/src/lib/wordSearch.ts)\<close>

datatype Direction = HORIZONTAL | VERTICAL | DIAGONAL_DOWN | DIAGONAL_UP

record Point =
  row :: int
  col :: int

record WordLocation =
  wl_word :: string
  wl_start :: Point
  wl_end :: Point

text \<open>A grid is an array of rows; a cell is a string, the empty string while unoccupied.\<close>

type_synonym Grid = "string list list"

record GridState =
  gs_grid :: Grid
  gs_words :: "WordLocation list"

definition DIRECTIONS :: "Direction list" where
  "DIRECTIONS = [HORIZONTAL, VERTICAL, DIAGONAL_DOWN, DIAGONAL_UP]"

text \<open>
  Reading \<open>grid[r][c]\<close> throws a TypeError when \<open>grid[r]\<close> is undefined and gives
  \<open>undefined\<close> (here \<open>None\<close>) when only the column is out of range. Writing
  \<open>grid[r][c] = v\<close> throws in the same case; a write outside an existing row would make
  JavaScript grow that row or add a property to it, and the model stops such a run with
  \<open>OutOfRangeWrite\<close> instead of following it.
\<close>

datatype js_error = TypeError | OutOfRangeWrite

definition grid_read :: "Grid \<Rightarrow> int \<Rightarrow> int \<Rightarrow> js_error + string option" where
  "grid_read g r c =
     (if 0 \<le> r \<and> r < int (length g)
      then Inr (if 0 \<le> c \<and> c < int (length (g ! nat r)) then Some (g ! nat r ! nat c) else None)
      else Inl TypeError)"

definition grid_write :: "Grid \<Rightarrow> int \<Rightarrow> int \<Rightarrow> string \<Rightarrow> js_error + Grid" where
  "grid_write g r c v =
     (if 0 \<le> r \<and> r < int (length g)
      then (if 0 \<le> c \<and> c < int (length (g ! nat r))
            then Inr (g[nat r := (g ! nat r)[nat c := v]])
            else Inl OutOfRangeWrite)
      else Inl TypeError)"

text \<open>
  The source of random numbers: \<open>rnd k\<close> stands for the \<open>k\<close>-th call of \<open>Math.random\<close>
  in a run, and \<open>Math.floor(Math.random() * n)\<close> is an index below \<open>n\<close> (and \<open>0\<close> when
  \<open>n\<close> is \<open>0\<close>), here the draw reduced modulo \<open>n\<close>. Every function that draws takes the
  number of draws made so far and returns the new count.
\<close>

type_synonym rng = "nat \<Rightarrow> nat"

definition random_below :: "rng \<Rightarrow> nat \<Rightarrow> nat \<Rightarrow> nat" where
  "random_below rnd k n = (if n = 0 then 0 else rnd k mod n)"

definition rnd_of_list :: "nat list \<Rightarrow> rng" where
  "rnd_of_list xs k = (if k < length xs then xs ! k else 0)"

text \<open>
  The class \<open>WordSearchGenerator\<close> has the two fields \<open>rows\<close> and \<open>cols\<close>, set by
  its constructor; they are the first two arguments of the methods that read them.
\<close>

text \<open>
  The cell of the \<open>i\<close>-th letter of a word that starts at \<open>(row, col)\<close>: the chain of
  \<open>if\<close>s on the direction that \<open>canPlaceWord\<close> (twice) and \<open>insertWord\<close> repeat.
\<close>

fun offset :: "Direction \<Rightarrow> int \<Rightarrow> int \<Rightarrow> int \<Rightarrow> Point" where
  "offset HORIZONTAL r c i = \<lparr>row = r, col = c + i\<rparr>"
| "offset VERTICAL r c i = \<lparr>row = r + i, col = c\<rparr>"
| "offset DIAGONAL_DOWN r c i = \<lparr>row = r + i, col = c + i\<rparr>"
| "offset DIAGONAL_UP r c i = \<lparr>row = r - i, col = c + i\<rparr>"

fun canPlaceWord_loop ::
  "Grid \<Rightarrow> string \<Rightarrow> int \<Rightarrow> int \<Rightarrow> Direction \<Rightarrow> nat list \<Rightarrow> js_error + bool" where
  "canPlaceWord_loop g w r c d [] = Inr True"
| "canPlaceWord_loop g w r c d (i # is) =
     (let p = offset d r c (int i) in
      case grid_read g (row p) (col p) of
        Inl e \<Rightarrow> Inl e
      | Inr cell \<Rightarrow>
          if cell \<noteq> Some [] \<and> cell \<noteq> Some [w ! i] then Inr False
          else canPlaceWord_loop g w r c d is)"

definition canPlaceWord ::
  "nat \<Rightarrow> nat \<Rightarrow> Grid \<Rightarrow> string \<Rightarrow> int \<Rightarrow> int \<Rightarrow> Direction \<Rightarrow> js_error + bool" where
  "canPlaceWord rows cols g w r c d =
     (let len = int (length w); e = offset d r c (len - 1) in
      if row e < 0 \<or> row e \<ge> int rows \<or> col e < 0 \<or> col e \<ge> int cols then Inr False
      else canPlaceWord_loop g w r c d [0..<length w])"

fun insertWord_loop ::
  "Grid \<Rightarrow> string \<Rightarrow> int \<Rightarrow> int \<Rightarrow> Direction \<Rightarrow> Point \<Rightarrow> nat list \<Rightarrow> js_error + (Grid \<times> Point)"
  where
  "insertWord_loop g w r c d e [] = Inr (g, e)"
| "insertWord_loop g w r c d e (i # is) =
     (let p = offset d r c (int i) in
      case grid_write g (row p) (col p) [w ! i] of
        Inl err \<Rightarrow> Inl err
      | Inr g' \<Rightarrow>
          insertWord_loop g' w r c d (if int i = int (length w) - 1 then p else e) is)"

definition insertWord ::
  "Grid \<Rightarrow> string \<Rightarrow> int \<Rightarrow> int \<Rightarrow> Direction \<Rightarrow> js_error + (Grid \<times> Point)" where
  "insertWord g w r c d = insertWord_loop g w r c d \<lparr>row = r, col = c\<rparr> [0..<length w]"

text \<open>
  \<open>placeWord\<close>: the loop counts the attempts that are left, from \<open>maxAttempts = 100\<close> down,
  where the source counts \<open>i\<close> up. Each attempt makes three draws.
\<close>

fun placeWord_loop ::
  "nat \<Rightarrow> nat \<Rightarrow> rng \<Rightarrow> nat \<Rightarrow> nat \<Rightarrow> Grid \<Rightarrow> string \<Rightarrow>
   js_error + (Grid \<times> WordLocation option \<times> nat)" where
  "placeWord_loop rows cols rnd k 0 g w = Inr (g, None, k)"
| "placeWord_loop rows cols rnd k (Suc n) g w =
     (let direction = DIRECTIONS ! random_below rnd k (length DIRECTIONS);
          startRow = int (random_below rnd (k + 1) rows);
          startCol = int (random_below rnd (k + 2) cols) in
      case canPlaceWord rows cols g w startRow startCol direction of
        Inl e \<Rightarrow> Inl e
      | Inr True \<Rightarrow>
          (case insertWord g w startRow startCol direction of
             Inl e \<Rightarrow> Inl e
           | Inr (g', end) \<Rightarrow>
               Inr (g',
                    Some \<lparr>wl_word = w, wl_start = \<lparr>row = startRow, col = startCol\<rparr>,
                          wl_end = end\<rparr>,
                    k + 3))
      | Inr False \<Rightarrow> placeWord_loop rows cols rnd (k + 3) n g w)"

definition placeWord ::
  "nat \<Rightarrow> nat \<Rightarrow> rng \<Rightarrow> nat \<Rightarrow> Grid \<Rightarrow> string \<Rightarrow>
   js_error + (Grid \<times> WordLocation option \<times> nat)" where
  "placeWord rows cols rnd k g w = placeWord_loop rows cols rnd k 100 g w"

fun fillEmptyCells_cols ::
  "rng \<Rightarrow> nat \<Rightarrow> Grid \<Rightarrow> nat \<Rightarrow> nat list \<Rightarrow> js_error + (Grid \<times> nat)" where
  "fillEmptyCells_cols rnd k g r [] = Inr (g, k)"
| "fillEmptyCells_cols rnd k g r (c # cs) =
     (case grid_read g (int r) (int c) of
        Inl e \<Rightarrow> Inl e
      | Inr cell \<Rightarrow>
          if cell = Some [] then
            (case grid_write g (int r) (int c)
                    [letters ! random_below rnd k (length letters)] of
               Inl e \<Rightarrow> Inl e
             | Inr g' \<Rightarrow> fillEmptyCells_cols rnd (k + 1) g' r cs)
          else fillEmptyCells_cols rnd k g r cs)"

fun fillEmptyCells_rows ::
  "nat \<Rightarrow> rng \<Rightarrow> nat \<Rightarrow> Grid \<Rightarrow> nat list \<Rightarrow> js_error + (Grid \<times> nat)" where
  "fillEmptyCells_rows cols rnd k g [] = Inr (g, k)"
| "fillEmptyCells_rows cols rnd k g (r # rs) =
     (case fillEmptyCells_cols rnd k g r [0..<cols] of
        Inl e \<Rightarrow> Inl e
      | Inr (g', k') \<Rightarrow> fillEmptyCells_rows cols rnd k' g' rs)"

definition fillEmptyCells ::
  "nat \<Rightarrow> nat \<Rightarrow> rng \<Rightarrow> nat \<Rightarrow> Grid \<Rightarrow> js_error + (Grid \<times> nat)" where
  "fillEmptyCells rows cols rnd k g = fillEmptyCells_rows cols rnd k g [0..<rows]"

text \<open>
  \<open>Array.from(new Set(words))\<close> keeps the first occurrence of every string, compared
  exactly as it is written, in the order of the input.
\<close>

definition array_from_Set :: "string list \<Rightarrow> string list" where
  "array_from_Set ws = foldl (\<lambda>acc w. if w \<in> set acc then acc else acc @ [w]) [] ws"

text \<open>The loop of \<open>generate\<close> over the sorted words; the words of a failed placement are dropped.\<close>

fun generate_loop ::
  "nat \<Rightarrow> nat \<Rightarrow> rng \<Rightarrow> nat \<Rightarrow> Grid \<Rightarrow> WordLocation list \<Rightarrow> string list \<Rightarrow>
   js_error + (Grid \<times> WordLocation list \<times> nat)" where
  "generate_loop rows cols rnd k g placedWords [] = Inr (g, placedWords, k)"
| "generate_loop rows cols rnd k g placedWords (w # ws) =
     (case placeWord rows cols rnd k g (toUpperCase w) of
        Inl e \<Rightarrow> Inl e
      | Inr (g', Some placed, k') \<Rightarrow> generate_loop rows cols rnd k' g' (placedWords @ [placed]) ws
      | Inr (g', None, k') \<Rightarrow> generate_loop rows cols rnd k' g' placedWords ws)"

text \<open>
  \<open>generate\<close>; \<open>Array.prototype.sort\<close> is stable, as \<open>sort_key\<close> is, and the comparator
  \<open>b.length - a.length\<close> orders by descending length.
\<close>

definition generate :: "nat \<Rightarrow> nat \<Rightarrow> rng \<Rightarrow> string list \<Rightarrow> js_error + GridState" where
  "generate rows cols rnd ws =
     (let grid = replicate rows (replicate cols []);
          uniqueWords = array_from_Set ws;
          sortedWords = sort_key (\<lambda>w. - int (length w)) uniqueWords in
      case generate_loop rows cols rnd 0 grid [] sortedWords of
        Inl e \<Rightarrow> Inl e
      | Inr (grid', placedWords, k) \<Rightarrow>
          (case fillEmptyCells rows cols rnd k grid' of
             Inl e \<Rightarrow> Inl e
           | Inr (grid'', k') \<Rightarrow> Inr \<lparr>gs_grid = grid'', gs_words = placedWords\<rparr>))"

section \<open>Solver (WordSearchSolver.ts, src/unnamed/part_004)\<close>

record FoundWord =
  fw_word :: string
  fw_start :: Point
  fw_end :: Point
  fw_path :: "Point list"

definition solver_DIRECTIONS :: "(int \<times> int) list" where
  "solver_DIRECTIONS = [(-1, -1), (-1, 0), (-1, 1), (0, -1), (0, 1), (1, -1), (1, 0), (1, 1)]"

text \<open>
  The fields of the class that the constructor sets and nothing changes afterwards. The
  two fields that \<open>findAllWords\<close> and \<open>dfs\<close> update, \<open>foundWords\<close> and \<open>solutions\<close>, are
  the record \<open>SolverState\<close>, passed through the search.
\<close>

record WordSearchSolver =
  solver_grid :: Grid
  solver_rows :: nat
  solver_cols :: nat
  solver_trie :: TrieNode

record SolverState =
  foundWords :: "string set"
  solutions :: "FoundWord list"

text \<open>The constructor; \<open>grid[0]?.length || 0\<close> is \<open>0\<close> for a grid without rows.\<close>

definition new_WordSearchSolver :: "Grid \<Rightarrow> string list \<Rightarrow> WordSearchSolver" where
  "new_WordSearchSolver g ws =
     \<lparr>solver_grid = g,
      solver_rows = length g,
      solver_cols = (case g of [] \<Rightarrow> 0 | r0 # _ \<Rightarrow> length r0),
      solver_trie = Trie_fromWords ws\<rparr>"

text \<open>
  What \<open>currentWord + this.grid[row][col]\<close> appends: the cell, or the text \<open>undefined\<close>
  where the row is shorter than the column index; a missing row throws.
\<close>

definition char_at :: "Grid \<Rightarrow> int \<Rightarrow> int \<Rightarrow> js_error + string" where
  "char_at g r c =
     (case grid_read g r c of
        Inl e \<Rightarrow> Inl e
      | Inr None \<Rightarrow> Inr ''undefined''
      | Inr (Some s) \<Rightarrow> Inr s)"

text \<open>The cells inside the bounds that the two searches check; the measure of both recursions.\<close>

definition cells_in_bounds :: "WordSearchSolver \<Rightarrow> Point set" where
  "cells_in_bounds S =
     (\<lambda>(r, c). \<lparr>row = int r, col = int c\<rparr>) ` ({0..<solver_rows S} \<times> {0..<solver_cols S})"

text \<open>
  The test \<open>trieNode.isEndOfWord && trieNode.word && !set.has(trieNode.word)\<close>; a stored
  word that is the empty string is falsy.
\<close>

definition is_new_word :: "TrieNode \<Rightarrow> string set \<Rightarrow> bool" where
  "is_new_word trieNode known =
     (isEndOfWord trieNode \<and>
      (case node_word trieNode of None \<Rightarrow> False | Some w \<Rightarrow> w \<noteq> [] \<and> w \<notin> known))"

text \<open>
  \<open>dfs\<close>, the search of \<open>findAllWords\<close>, with its loop over the eight directions as
  \<open>dfs_dirs\<close>. The keys \<open>`${row},${col}`\<close> of the visited set are the points themselves.
\<close>

function dfs ::
    "WordSearchSolver \<Rightarrow> int \<Rightarrow> int \<Rightarrow> string \<Rightarrow> Point list \<Rightarrow> Point set \<Rightarrow> SolverState \<Rightarrow>
     js_error + SolverState"
  and dfs_dirs ::
    "WordSearchSolver \<Rightarrow> int \<Rightarrow> int \<Rightarrow> string \<Rightarrow> Point list \<Rightarrow> Point set \<Rightarrow>
     (int \<times> int) list \<Rightarrow> SolverState \<Rightarrow> js_error + SolverState"
  where
  "dfs S r c currentWord path visited st =
     (if r < 0 \<or> r \<ge> int (solver_rows S) \<or> c < 0 \<or> c \<ge> int (solver_cols S) then Inr st
      else if \<lparr>row = r, col = c\<rparr> \<in> visited then Inr st
      else
        (case char_at (solver_grid S) r c of
           Inl e \<Rightarrow> Inl e
         | Inr ch \<Rightarrow>
             (case Trie_getNode (solver_trie S) (currentWord @ ch) of
                None \<Rightarrow> Inr st
              | Some trieNode \<Rightarrow>
                  dfs_dirs S r c (currentWord @ ch) (path @ [\<lparr>row = r, col = c\<rparr>])
                    (insert \<lparr>row = r, col = c\<rparr> visited) solver_DIRECTIONS
                    (if is_new_word trieNode (foundWords st)
                     then st\<lparr>foundWords := insert (the (node_word trieNode)) (foundWords st),
                             solutions := solutions st @
                               [\<lparr>fw_word = the (node_word trieNode),
                                 fw_start = (case path of [] \<Rightarrow> \<lparr>row = r, col = c\<rparr> | p0 # _ \<Rightarrow> p0),
                                 fw_end = \<lparr>row = r, col = c\<rparr>,
                                 fw_path = path @ [\<lparr>row = r, col = c\<rparr>]\<rparr>]\<rparr>
                     else st))))"
| "dfs_dirs S r c newWord newPath newVisited [] st = Inr st"
| "dfs_dirs S r c newWord newPath newVisited (d # ds) st =
     (case dfs S (r + fst d) (c + snd d) newWord newPath newVisited st of
        Inl e \<Rightarrow> Inl e
      | Inr st' \<Rightarrow> dfs_dirs S r c newWord newPath newVisited ds st')"
  by pat_completeness auto

lemma finite_cells_in_bounds: "finite (cells_in_bounds S)"
  by (simp add: cells_in_bounds_def)

lemma in_cells_in_bounds:
  "0 \<le> r \<Longrightarrow> r < int (solver_rows S) \<Longrightarrow> 0 \<le> c \<Longrightarrow> c < int (solver_cols S) \<Longrightarrow>
   \<lparr>row = r, col = c\<rparr> \<in> cells_in_bounds S"
  unfolding cells_in_bounds_def
  by (rule image_eqI [where x = "(nat r, nat c)"]) auto

lemma card_unvisited_less:
  "p \<in> cells_in_bounds S \<Longrightarrow> p \<notin> visited \<Longrightarrow>
   card (cells_in_bounds S - insert p visited) < card (cells_in_bounds S - visited)"
  by (intro psubset_card_mono) (auto simp: finite_cells_in_bounds)

termination dfs
  by (relation "measures
        [\<lambda>x. case x of
               Inl (S, r, c, cw, path, visited, st) \<Rightarrow> card (cells_in_bounds S - visited)
             | Inr (S, r, c, nw, np, nv, ds, st) \<Rightarrow> card (cells_in_bounds S - nv),
         \<lambda>x. case x of Inl _ \<Rightarrow> 0 | Inr (S, r, c, nw, np, nv, ds, st) \<Rightarrow> Suc (length ds)]")
     (auto simp: card_unvisited_less in_cells_in_bounds simp del: card_Diff_insert)

text \<open>The nested loops over rows and columns visit the cells in row-major order.\<close>

definition all_positions :: "WordSearchSolver \<Rightarrow> Point list" where
  "all_positions S =
     concat (map (\<lambda>r. map (\<lambda>c. \<lparr>row = int r, col = int c\<rparr>) [0..<solver_cols S])
                 [0..<solver_rows S])"

fun findAllWords_loop ::
  "WordSearchSolver \<Rightarrow> Point list \<Rightarrow> SolverState \<Rightarrow> js_error + SolverState" where
  "findAllWords_loop S [] st = Inr st"
| "findAllWords_loop S (p # ps) st =
     (case dfs S (row p) (col p) [] [] {} st of
        Inl e \<Rightarrow> Inl e
      | Inr st' \<Rightarrow> findAllWords_loop S ps st')"

definition findAllWords :: "WordSearchSolver \<Rightarrow> js_error + FoundWord list" where
  "findAllWords S =
     (case findAllWords_loop S (all_positions S) \<lparr>foundWords = {}, solutions = []\<rparr> of
        Inl e \<Rightarrow> Inl e
      | Inr st \<Rightarrow> Inr (solutions st))"

text \<open>
  The closure \<open>dfs\<close> of \<open>searchFromCell\<close>, which shares the counter \<open>attempts\<close> and the
  variable \<open>found\<close> with it: both are passed in, as the pair \<open>st\<close>, and returned next to
  the boolean result. \<open>attempts++\<close> follows the test of the budget, so every later branch
  returns \<open>fst st + 1\<close>. The loop over the directions stops at the first \<open>true\<close>.
\<close>

function search_dfs ::
    "WordSearchSolver \<Rightarrow> string set \<Rightarrow> int \<Rightarrow> int \<Rightarrow> int \<Rightarrow> string \<Rightarrow> Point list \<Rightarrow>
     Point set \<Rightarrow> int \<times> FoundWord option \<Rightarrow> js_error + (bool \<times> int \<times> FoundWord option)"
  and search_dfs_dirs ::
    "WordSearchSolver \<Rightarrow> string set \<Rightarrow> int \<Rightarrow> int \<Rightarrow> int \<Rightarrow> string \<Rightarrow> Point list \<Rightarrow>
     Point set \<Rightarrow> (int \<times> int) list \<Rightarrow> int \<times> FoundWord option \<Rightarrow>
     js_error + (bool \<times> int \<times> FoundWord option)"
  where
  "search_dfs S excludeWords maxAttempts r c currentWord path visited st =
     (if fst st \<ge> maxAttempts then Inr (False, st)
      else if r < 0 \<or> r \<ge> int (solver_rows S) \<or> c < 0 \<or> c \<ge> int (solver_cols S)
      then Inr (False, fst st + 1, snd st)
      else if \<lparr>row = r, col = c\<rparr> \<in> visited then Inr (False, fst st + 1, snd st)
      else
        (case char_at (solver_grid S) r c of
           Inl e \<Rightarrow> Inl e
         | Inr ch \<Rightarrow>
             (case Trie_getNode (solver_trie S) (currentWord @ ch) of
                None \<Rightarrow> Inr (False, fst st + 1, snd st)
              | Some trieNode \<Rightarrow>
                  if is_new_word trieNode excludeWords
                  then Inr (True, fst st + 1,
                         Some \<lparr>fw_word = the (node_word trieNode),
                               fw_start = (case path of [] \<Rightarrow> \<lparr>row = r, col = c\<rparr> | p0 # _ \<Rightarrow> p0),
                               fw_end = \<lparr>row = r, col = c\<rparr>,
                               fw_path = path @ [\<lparr>row = r, col = c\<rparr>]\<rparr>)
                  else search_dfs_dirs S excludeWords maxAttempts r c (currentWord @ ch)
                         (path @ [\<lparr>row = r, col = c\<rparr>]) (insert \<lparr>row = r, col = c\<rparr> visited)
                         solver_DIRECTIONS (fst st + 1, snd st))))"
| "search_dfs_dirs S excludeWords maxAttempts r c newWord newPath newVisited [] st =
     Inr (False, st)"
| "search_dfs_dirs S excludeWords maxAttempts r c newWord newPath newVisited (d # ds) st =
     (case search_dfs S excludeWords maxAttempts (r + fst d) (c + snd d) newWord newPath
             newVisited st of
        Inl e \<Rightarrow> Inl e
      | Inr (True, st') \<Rightarrow> Inr (True, st')
      | Inr (False, st') \<Rightarrow>
          search_dfs_dirs S excludeWords maxAttempts r c newWord newPath newVisited ds st')"
  by pat_completeness auto

termination search_dfs
  by (relation "measures
        [\<lambda>x. case x of
               Inl (S, ex, m, r, c, cw, path, visited, st) \<Rightarrow> card (cells_in_bounds S - visited)
             | Inr (S, ex, m, r, c, nw, np, nv, ds, st) \<Rightarrow> card (cells_in_bounds S - nv),
         \<lambda>x. case x of
               Inl _ \<Rightarrow> 0
             | Inr (S, ex, m, r, c, nw, np, nv, ds, st) \<Rightarrow> Suc (length ds)]")
     (auto simp: card_unvisited_less in_cells_in_bounds simp del: card_Diff_insert)

definition searchFromCell ::
  "WordSearchSolver \<Rightarrow> int \<Rightarrow> int \<Rightarrow> string set \<Rightarrow> int \<Rightarrow> js_error + (FoundWord option \<times> int)"
  where
  "searchFromCell S startRow startCol excludeWords maxAttempts =
     (case search_dfs S excludeWords maxAttempts startRow startCol [] [] {} (0, None) of
        Inl e \<Rightarrow> Inl e
      | Inr (b, attempts, found) \<Rightarrow> Inr (found, attempts))"

text \<open>The Fisher-Yates loop of \<open>getShuffledPositions\<close>, for \<open>i\<close> from the last index down to 1.\<close>

fun shuffle_loop :: "rng \<Rightarrow> nat \<Rightarrow> nat \<Rightarrow> Point list \<Rightarrow> Point list" where
  "shuffle_loop rnd k 0 positions = positions"
| "shuffle_loop rnd k (Suc i) positions =
     (let j = random_below rnd k (Suc i + 1) in
      shuffle_loop rnd (k + 1) i (positions[Suc i := positions ! j, j := positions ! Suc i]))"

definition getShuffledPositions :: "WordSearchSolver \<Rightarrow> rng \<Rightarrow> Point list" where
  "getShuffledPositions S rnd =
     shuffle_loop rnd 0 (length (all_positions S) - 1) (all_positions S)"

text \<open>
  \<open>findNextWord\<close>: the loop over the shuffled positions, which returns the counter
  \<open>attempts\<close> next to the result, and the method itself, which returns the result only.
\<close>

fun findNextWord_loop ::
  "WordSearchSolver \<Rightarrow> string set \<Rightarrow> int \<Rightarrow> int \<Rightarrow> Point list \<Rightarrow>
   js_error + (FoundWord option \<times> int)" where
  "findNextWord_loop S foundSet maxAttempts attempts [] = Inr (None, attempts)"
| "findNextWord_loop S foundSet maxAttempts attempts (p # ps) =
     (if attempts \<ge> maxAttempts then Inr (None, attempts)
      else
        (case searchFromCell S (row p) (col p) foundSet (maxAttempts - attempts) of
           Inl e \<Rightarrow> Inl e
         | Inr (found, n) \<Rightarrow>
             (case found of
                Some f \<Rightarrow>
                  if fw_word f \<notin> foundSet then Inr (Some f, attempts + n)
                  else findNextWord_loop S foundSet maxAttempts (attempts + n) ps
              | None \<Rightarrow> findNextWord_loop S foundSet maxAttempts (attempts + n) ps)))"

definition findNextWord_attempts ::
  "WordSearchSolver \<Rightarrow> rng \<Rightarrow> string list \<Rightarrow> int \<Rightarrow> js_error + (FoundWord option \<times> int)" where
  "findNextWord_attempts S rnd alreadyFound maxAttempts =
     findNextWord_loop S (set alreadyFound) maxAttempts 0 (getShuffledPositions S rnd)"

definition findNextWord ::
  "WordSearchSolver \<Rightarrow> rng \<Rightarrow> string list \<Rightarrow> int \<Rightarrow> js_error + FoundWord option" where
  "findNextWord S rnd alreadyFound maxAttempts =
     (case findNextWord_attempts S rnd alreadyFound maxAttempts of
        Inl e \<Rightarrow> Inl e
      | Inr (found, attempts) \<Rightarrow> Inr found)"

section \<open>Opponent scheduler (useComputerOpponent.ts, src/unnamed/part_005)\<close>

text \<open>
  The properties of the hook that its effects read, and what the deferred action of
  \<open>setTimeout\<close> has captured when it was created: the two lists of found words. The
  callback \<open>onCpuFoundWord\<close> is modelled by the list \<open>calls\<close> of the arguments it was
  called with.
\<close>

record Props =
  p_grid :: "Grid option"
  p_words :: "string list"
  p_playerFoundWords :: "string list"
  p_cpuFoundWords :: "string list"
  p_isCpuTurn :: bool
  p_gameActive :: bool

record PendingMove =
  pm_playerFoundWords :: "string list"
  pm_cpuFoundWords :: "string list"

text \<open>
  The state: the two refs of the hook; the table of live timers of the runtime, a timer
  being live from \<open>setTimeout\<close> until it is cleared or its action runs; the next handle
  that \<open>setTimeout\<close> returns (handles are never 0, so a stored handle is truthy); whether
  the last run of the turn effect returned its clean-up function; and the calls of the
  callback so far.
\<close>

record HookState =
  solverRef :: "WordSearchSolver option"
  turnTimeoutRef :: "nat option"
  timers :: "(nat \<times> PendingMove) list"
  next_handle :: nat
  cleanup_set :: bool
  calls :: "WordLocation list"

definition hook_init :: HookState where
  "hook_init =
     \<lparr>solverRef = None, turnTimeoutRef = None, timers = [], next_handle = 1,
      cleanup_set = False, calls = []\<rparr>"

definition clearTimeout :: "nat \<Rightarrow> HookState \<Rightarrow> HookState" where
  "clearTimeout h s = s\<lparr>timers := filter (\<lambda>e. fst e \<noteq> h) (timers s)\<rparr>"

definition setTimeout :: "PendingMove \<Rightarrow> HookState \<Rightarrow> nat \<times> HookState" where
  "setTimeout pm s =
     (next_handle s,
      s\<lparr>timers := timers s @ [(next_handle s, pm)], next_handle := Suc (next_handle s)\<rparr>)"

text \<open>The first effect: \<open>if (grid && words.length > 0)\<close> a new solver is stored.\<close>

definition solver_effect :: "Props \<Rightarrow> HookState \<Rightarrow> HookState" where
  "solver_effect props s =
     (case p_grid props of
        None \<Rightarrow> s
      | Some g \<Rightarrow>
          if length (p_words props) > 0
          then s\<lparr>solverRef := Some (new_WordSearchSolver g (p_words props))\<rparr>
          else s)"

text \<open>
  The second effect. Its body clears and forgets the stored timer when it is not the
  turn of the opponent or the game is not active, returns when there is no solver, and
  else starts a timer and stores its handle; only in the last case it returns the
  clean-up function, which clears the stored timer. The delay of the timer,
  \<open>Math.random() * 3000 + 2000\<close>, decides only when the runtime runs the action, and a
  live timer may run at any time here, so the delay is not kept.
\<close>

definition turn_effect :: "Props \<Rightarrow> HookState \<Rightarrow> HookState" where
  "turn_effect props s =
     (if \<not> p_isCpuTurn props \<or> \<not> p_gameActive props then
        (case turnTimeoutRef s of
           None \<Rightarrow> s
         | Some h \<Rightarrow> (clearTimeout h s)\<lparr>turnTimeoutRef := None\<rparr>)\<lparr>cleanup_set := False\<rparr>
      else if solverRef s = None then s\<lparr>cleanup_set := False\<rparr>
      else
        (case setTimeout \<lparr>pm_playerFoundWords = p_playerFoundWords props,
                           pm_cpuFoundWords = p_cpuFoundWords props\<rparr> s of
           (h, s') \<Rightarrow> s'\<lparr>turnTimeoutRef := Some h, cleanup_set := True\<rparr>))"

definition turn_cleanup :: "HookState \<Rightarrow> HookState" where
  "turn_cleanup s = (case turnTimeoutRef s of None \<Rightarrow> s | Some h \<Rightarrow> clearTimeout h s)"

text \<open>
  When a dependency of the turn effect has changed, React runs the clean-up function that
  the last run returned, if it returned one, and then the effect again.
\<close>

definition turn_rerender :: "Props \<Rightarrow> HookState \<Rightarrow> HookState" where
  "turn_rerender props s = turn_effect props (if cleanup_set s then turn_cleanup s else s)"

definition unmount :: "HookState \<Rightarrow> HookState" where
  "unmount s = (if cleanup_set s then (turn_cleanup s)\<lparr>cleanup_set := False\<rparr> else s)"

text \<open>
  The deferred action: \<open>solverRef.current?.findNextWord(allFoundWords, 500)\<close>, and the
  callback is called \<open>if (result)\<close>, with the word, the start and the end of the result.
\<close>

definition deferred_action :: "PendingMove \<Rightarrow> rng \<Rightarrow> HookState \<Rightarrow> js_error + HookState" where
  "deferred_action pm rnd s =
     (let allFoundWords = pm_playerFoundWords pm @ pm_cpuFoundWords pm in
      case solverRef s of
        None \<Rightarrow> Inr s
      | Some S \<Rightarrow>
          (case findNextWord S rnd allFoundWords 500 of
             Inl e \<Rightarrow> Inl e
           | Inr None \<Rightarrow> Inr s
           | Inr (Some result) \<Rightarrow>
               Inr (s\<lparr>calls := calls s @
                      [\<lparr>wl_word = fw_word result, wl_start = fw_start result,
                        wl_end = fw_end result\<rparr>]\<rparr>)))"

text \<open>
  The runtime runs the action of the timer \<open>h\<close>: nothing happens when the timer is not
  live; else it leaves the table and its action runs, with \<open>rnd\<close> the random numbers of
  that run.
\<close>

definition timer_fires :: "nat \<Rightarrow> rng \<Rightarrow> HookState \<Rightarrow> js_error + HookState" where
  "timer_fires h rnd s =
     (case map_of (timers s) h of
        None \<Rightarrow> Inr s
      | Some pm \<Rightarrow> deferred_action pm rnd (clearTimeout h s))"

text \<open>What can happen to a mounted hook, in any order, and a run of such events.\<close>

datatype Event = Solver_effect Props | Turn_effect Props | Unmount | Timer nat rng

fun step :: "Event \<Rightarrow> HookState \<Rightarrow> js_error + HookState" where
  "step (Solver_effect props) s = Inr (solver_effect props s)"
| "step (Turn_effect props) s = Inr (turn_rerender props s)"
| "step Unmount s = Inr (unmount s)"
| "step (Timer h rnd) s = timer_fires h rnd s"

fun run :: "Event list \<Rightarrow> HookState \<Rightarrow> js_error + HookState" where
  "run [] s = Inr s"
| "run (e # es) s = (case step e s of Inl err \<Rightarrow> Inl err | Inr s' \<Rightarrow> run es s')"

section \<open>Notions of the specification\<close>

text \<open>The content of a cell, for a point that lies on the grid.\<close>

definition grid_at :: "Grid \<Rightarrow> Point \<Rightarrow> string option" where
  "grid_at g p =
     (if 0 \<le> row p \<and> row p < int (length g) \<and> 0 \<le> col p \<and>
         col p < int (length (g ! nat (row p)))
      then Some (g ! nat (row p) ! nat (col p)) else None)"

definition in_grid :: "nat \<Rightarrow> nat \<Rightarrow> Point \<Rightarrow> bool" where
  "in_grid rows cols p \<longleftrightarrow> 0 \<le> row p \<and> row p < int rows \<and> 0 \<le> col p \<and> col p < int cols"

text \<open>A grid of \<open>rows\<close> rows that have \<open>cols\<close> cells each.\<close>

definition rect :: "nat \<Rightarrow> nat \<Rightarrow> Grid \<Rightarrow> bool" where
  "rect rows cols g \<longleftrightarrow> length g = rows \<and> (\<forall>r\<in>set g. length r = cols)"

text \<open>
  Two points are the ends of a straight line when they share the row, the column or a
  diagonal; \<open>line_points\<close> lists the cells from the first to the second, both included; and
  reading the grid along the line yields a word when the cells hold its letters, one each,
  in this order.
\<close>

definition straight :: "Point \<Rightarrow> Point \<Rightarrow> bool" where
  "straight s e \<longleftrightarrow>
     row e = row s \<or> col e = col s \<or> \<bar>row e - row s\<bar> = \<bar>col e - col s\<bar>"

definition line_points :: "Point \<Rightarrow> Point \<Rightarrow> Point list" where
  "line_points s e =
     (let dr = row e - row s; dc = col e - col s in
      map (\<lambda>i. \<lparr>row = row s + int i * sgn dr, col = col s + int i * sgn dc\<rparr>)
          [0..<Suc (nat (max \<bar>dr\<bar> \<bar>dc\<bar>))])"

definition line_spells :: "Grid \<Rightarrow> Point \<Rightarrow> Point \<Rightarrow> string \<Rightarrow> bool" where
  "line_spells g s e w \<longleftrightarrow>
     straight s e \<and> map (grid_at g) (line_points s e) = map (\<lambda>ch. Some [ch]) w"

text \<open>The spec's condition of \<open>containsPrefix\<close>: some indexed word starts with the path.\<close>

definition some_word_starts_with :: "string list \<Rightarrow> string \<Rightarrow> bool" where
  "some_word_starts_with ws p = list_ex (\<lambda>w. prefix (toUpperCase p) (toUpperCase w)) ws"

text \<open>
  \<open>extends A g g'\<close>: every cell of \<open>g'\<close> is the cell of \<open>g\<close>, or the cell of \<open>g\<close> was empty
  and that of \<open>g'\<close> holds one character of \<open>A\<close>.
\<close>

definition extends :: "char set \<Rightarrow> Grid \<Rightarrow> Grid \<Rightarrow> bool" where
  "extends A g g' \<longleftrightarrow>
     (\<forall>p. grid_at g' p = grid_at g p \<or>
          (grid_at g p = Some [] \<and> (\<exists>ch\<in>A. grid_at g' p = Some [ch])))"

text \<open>
  What holds of a placed word: the grid has cells, the word fits one of the two
  dimensions, and a word that is not empty can be read along the line from its start to
  its end.
\<close>

definition placed_ok :: "nat \<Rightarrow> nat \<Rightarrow> Grid \<Rightarrow> WordLocation \<Rightarrow> bool" where
  "placed_ok rows cols g wl \<longleftrightarrow>
     0 < rows \<and> 0 < cols \<and> (length (wl_word wl) \<le> rows \<or> length (wl_word wl) \<le> cols) \<and>
     (wl_word wl \<noteq> [] \<longrightarrow> line_spells g (wl_start wl) (wl_end wl) (wl_word wl))"

text \<open>What a trie stores, seen through \<open>traverse\<close>, for a set \<open>S\<close> of normalised words.\<close>

definition trie_of :: "string set \<Rightarrow> TrieNode \<Rightarrow> bool" where
  "trie_of S t \<longleftrightarrow>
     (\<forall>s. (Trie_traverse t s \<noteq> None \<longleftrightarrow> s = [] \<or> (\<exists>u\<in>S. prefix s u)) \<and>
          (\<forall>n. Trie_traverse t s = Some n \<longrightarrow>
               isEndOfWord n = (s \<in> S) \<and> node_word n = (if s \<in> S then Some s else None)))"

text \<open>
  The text a position adds to the word of a path: the string of the cell, or the text
  \<open>undefined\<close> where the grid has no such cell (a row that is shorter than the first).
  What holds of a found word, \<open>found_ok\<close>: the path is not empty, starts at \<open>start\<close> and
  ends at \<open>end\<close>, visits no position twice, stays inside the bounds the solver keeps (the
  rows of the grid and the columns of its first row), moves from each position to one of
  its eight neighbours, and the texts of its positions, in upper case, make up the word,
  which is not empty. \<open>on_grid\<close>: every position of the path is a cell of the grid.
\<close>

definition cell_text :: "Grid \<Rightarrow> Point \<Rightarrow> string" where
  "cell_text g p = (case grid_at g p of None \<Rightarrow> ''undefined'' | Some s \<Rightarrow> s)"

definition adjacent :: "Point \<Rightarrow> Point \<Rightarrow> bool" where
  "adjacent p q \<longleftrightarrow> (row q - row p, col q - col p) \<in> set solver_DIRECTIONS"

definition found_ok :: "WordSearchSolver \<Rightarrow> FoundWord \<Rightarrow> bool" where
  "found_ok S f \<longleftrightarrow>
     fw_path f \<noteq> [] \<and> fw_start f = hd (fw_path f) \<and> fw_end f = last (fw_path f) \<and>
     distinct (fw_path f) \<and> successively adjacent (fw_path f) \<and>
     list_all (in_grid (solver_rows S) (solver_cols S)) (fw_path f) \<and>
     fw_word f \<noteq> [] \<and>
     fw_word f = toUpperCase (concat (map (cell_text (solver_grid S)) (fw_path f)))"

definition on_grid :: "Grid \<Rightarrow> FoundWord \<Rightarrow> bool" where
  "on_grid g f \<longleftrightarrow> list_all (\<lambda>p. grid_at g p \<noteq> None) (fw_path f)"

text \<open>The invariants of the two searches.\<close>

definition solver_ok :: "WordSearchSolver \<Rightarrow> string set \<Rightarrow> bool" where
  "solver_ok S W \<longleftrightarrow> solver_rows S \<le> length (solver_grid S) \<and> trie_of W (solver_trie S)"

definition path_ok :: "WordSearchSolver \<Rightarrow> string \<Rightarrow> Point list \<Rightarrow> Point set \<Rightarrow> bool" where
  "path_ok S cw path visited \<longleftrightarrow>
     visited = set path \<and> distinct path \<and> successively adjacent path \<and>
     list_all (in_grid (solver_rows S) (solver_cols S)) path \<and>
     cw = concat (map (cell_text (solver_grid S)) path)"

definition state_ok :: "WordSearchSolver \<Rightarrow> string set \<Rightarrow> SolverState \<Rightarrow> bool" where
  "state_ok S W st \<longleftrightarrow>
     foundWords st = fw_word ` set (solutions st) \<and>
     list_all (\<lambda>f. found_ok S f \<and> fw_word f \<in> W) (solutions st)"

definition found_inv ::
  "WordSearchSolver \<Rightarrow> string set \<Rightarrow> string set \<Rightarrow> FoundWord option \<Rightarrow> bool" where
  "found_inv S W ex found \<longleftrightarrow>
     (case found of None \<Rightarrow> True
      | Some f \<Rightarrow> found_ok S f \<and> fw_word f \<in> W \<and> fw_word f \<notin> ex)"

text \<open>
  The invariant of the hook: every live timer is the stored one, no timer is live when
  the last run of the turn effect returned no clean-up function, and the solver is one
  that the constructor built. An event is off turn when it does not start a turn of the
  opponent: every event but a run of the turn effect with \<open>isCpuTurn\<close> and \<open>gameActive\<close>.
\<close>

definition is_solver :: "WordSearchSolver \<Rightarrow> bool" where
  "is_solver S \<longleftrightarrow> (\<exists>g ws. S = new_WordSearchSolver g ws)"

definition hook_inv :: "HookState \<Rightarrow> bool" where
  "hook_inv s \<longleftrightarrow>
     list_all (\<lambda>e. turnTimeoutRef s = Some (fst e)) (timers s) \<and>
     (cleanup_set s \<or> timers s = []) \<and>
     (case solverRef s of None \<Rightarrow> True | Some S \<Rightarrow> is_solver S)"

definition off_turn :: "Event \<Rightarrow> bool" where
  "off_turn e =
     (case e of
        Turn_effect props \<Rightarrow> \<not> p_isCpuTurn props \<or> \<not> p_gameActive props
      | _ \<Rightarrow> True)"

section \<open>Properties of the trie\<close>

lemma toUpperCase_Nil [simp]: "toUpperCase [] = []"
  by (simp add: toUpperCase_def)

lemma toUpperCase_eq_Nil [simp]: "toUpperCase s = [] \<longleftrightarrow> s = []"
  by (simp add: toUpperCase_def)

lemma toUpperCase_append: "toUpperCase (a @ b) = toUpperCase a @ toUpperCase b"
  by (simp add: toUpperCase_def)

lemma length_toUpperCase [simp]: "length (toUpperCase s) = length s"
  by (simp add: toUpperCase_def)

lemma traverse_createNode: "s \<noteq> [] \<Longrightarrow> Trie_traverse createNode s = None"
  by (cases s) (simp_all add: createNode_def)

lemma traverse_insert_loop_other:
  "\<not> prefix s cs \<Longrightarrow> Trie_traverse (Trie_insert_loop uw cs t) s = Trie_traverse t s"
proof (induction cs arbitrary: t s)
  case Nil
  then show ?case by (cases t; cases s) simp_all
next
  case (Cons c cs)
  obtain m e w where t: "t = TrieNode m e w" by (cases t)
  from Cons.prems obtain d ds where s: "s = d # ds" by (cases s) auto
  show ?case
  proof (cases "d = c")
    case True
    with Cons.prems s have np: "\<not> prefix ds cs" by simp
    then have "ds \<noteq> []" by auto
    then show ?thesis
      using Cons.IH [OF np] True s t traverse_createNode [of ds]
      by (simp split: option.splits)
  next
    case False
    then show ?thesis using s t by simp
  qed
qed

lemma traverse_insert_loop_prefix:
  "prefix s cs \<Longrightarrow> \<exists>n. Trie_traverse (Trie_insert_loop uw cs t) s = Some n \<and>
     (if s = cs then isEndOfWord n \<and> node_word n = Some uw
      else (case Trie_traverse t s of
              None \<Rightarrow> \<not> isEndOfWord n \<and> node_word n = None
            | Some k \<Rightarrow> isEndOfWord n = isEndOfWord k \<and> node_word n = node_word k))"
proof (induction cs arbitrary: t s)
  case Nil
  then show ?case by (cases t) simp
next
  case (Cons c cs)
  obtain m e w where t: "t = TrieNode m e w" by (cases t)
  show ?case
  proof (cases s)
    case Nil
    then show ?thesis using t by simp
  next
    case (Cons d ds)
    with Cons.prems have d: "d = c" and p: "prefix ds cs" by simp_all
    show ?thesis
    proof (cases "m c")
      case None
      from Cons.IH [OF p, of createNode] traverse_createNode [of ds]
      show ?thesis using Cons d t None
        by (cases "ds = []") (auto simp: createNode_def split: if_splits)
    next
      case (Some k)
      from Cons.IH [OF p, of k]
      show ?thesis using Cons d t Some by auto
    qed
  qed
qed

lemma trie_of_createNode: "trie_of {} createNode"
  unfolding trie_of_def
proof (intro allI conjI impI)
  fix s
  show "(Trie_traverse createNode s \<noteq> None) = (s = [] \<or> (\<exists>u\<in>{}. prefix s u))"
    by (cases s) (simp_all add: createNode_def)
next
  fix s n
  assume "Trie_traverse createNode s = Some n"
  then have "s = []" "n = createNode"
    by (cases s; simp add: createNode_def)+
  then show "isEndOfWord n = (s \<in> {})" "node_word n = (if s \<in> {} then Some s else None)"
    by (simp_all add: createNode_def)
qed

lemma trie_of_insert_loop:
  assumes "trie_of S t"
  shows "trie_of (insert u S) (Trie_insert_loop u u t)"
  unfolding trie_of_def
proof (intro allI conjI impI)
  fix s
  show "(Trie_traverse (Trie_insert_loop u u t) s \<noteq> None) =
        (s = [] \<or> (\<exists>v\<in>insert u S. prefix s v))"
  proof (cases "prefix s u")
    case True
    with traverse_insert_loop_prefix [OF True, of u t] show ?thesis by auto
  next
    case False
    with traverse_insert_loop_other [OF False, of u t] assms show ?thesis
      by (auto simp: trie_of_def)
  qed
next
  fix s n
  assume n: "Trie_traverse (Trie_insert_loop u u t) s = Some n"
  have "isEndOfWord n = (s \<in> insert u S) \<and>
        node_word n = (if s \<in> insert u S then Some s else None)"
  proof (cases "prefix s u")
    case True
    from traverse_insert_loop_prefix [OF True, of u t] n
    have *: "if s = u then isEndOfWord n \<and> node_word n = Some u
      else (case Trie_traverse t s of
              None \<Rightarrow> \<not> isEndOfWord n \<and> node_word n = None
            | Some k \<Rightarrow> isEndOfWord n = isEndOfWord k \<and> node_word n = node_word k)"
      by auto
    show ?thesis
    proof (cases "s = u")
      case True
      with * show ?thesis by simp
    next
      case False
      note su = this
      show ?thesis
      proof (cases "Trie_traverse t s")
        case None
        have "s \<in> S \<Longrightarrow> Trie_traverse t s \<noteq> None"
          using assms unfolding trie_of_def by blast
        with None have "s \<notin> S" by blast
        with * su None show ?thesis by simp
      next
        case (Some k)
        with assms have "isEndOfWord k = (s \<in> S)" "node_word k = (if s \<in> S then Some s else None)"
          by (auto simp: trie_of_def)
        with * su Some show ?thesis by simp
      qed
    qed
  next
    case False
    then have "s \<noteq> u" by auto
    with traverse_insert_loop_other [OF False, of u t] n assms show ?thesis
      by (auto simp: trie_of_def)
  qed
  then show "isEndOfWord n = (s \<in> insert u S)"
    "node_word n = (if s \<in> insert u S then Some s else None)" by simp_all
qed

lemma trie_of_foldl:
  "trie_of S t \<Longrightarrow>
   trie_of (S \<union> toUpperCase ` set ws) (foldl (\<lambda>trie w. Trie_insert w trie) t ws)"
proof (induction ws arbitrary: S t)
  case Nil
  then show ?case by simp
next
  case (Cons w ws)
  from trie_of_insert_loop [OF Cons.prems, of "toUpperCase w"]
  have "trie_of (insert (toUpperCase w) S) (Trie_insert w t)"
    by (simp add: Trie_insert_def)
  from Cons.IH [OF this] show ?case
    by simp
qed

lemma trie_of_fromWords: "trie_of (toUpperCase ` set ws) (Trie_fromWords ws)"
  using trie_of_foldl [OF trie_of_createNode, of ws] by (simp add: Trie_fromWords_def)

text \<open>
  C5. The claim, like the comment of \<open>startsWith\<close> (``Check if any word in the Trie starts
  with the given prefix''), says that \<open>startsWith p\<close> is true if and only if some inserted
  word, in upper case, has the uppercase of \<open>p\<close> as a prefix. The code breaks it on a trie
  into which no word was inserted: \<open>traverse\<close> of the empty string returns the root, which
  always exists, so \<open>startsWith\<close> of the empty string is true there although no word
  starts with it.
\<close>

theorem Trie_startsWith_empty_counterexample:
  "Trie_startsWith (Trie_fromWords []) '''' \<noteq> some_word_starts_with [] ''''"
  by (simp add: Trie_startsWith_def Trie_fromWords_def some_word_starts_with_def)

section \<open>Properties of the grid operations\<close>

lemma Point_eq_iff: "(p :: Point) = \<lparr>row = r, col = c\<rparr> \<longleftrightarrow> row p = r \<and> col p = c"
  by (cases p) simp

lemma Point_collapse [simp]: "\<lparr>row = row p, col = col p\<rparr> = (p :: Point)"
  by (cases p) simp

lemma grid_at_rect:
  "rect rows cols g \<Longrightarrow> grid_at g p = (if in_grid rows cols p then Some (g ! nat (row p) ! nat (col p)) else None)"
  by (auto simp: rect_def grid_at_def in_grid_def)

lemma grid_read_eq:
  "grid_read g r c =
     (if 0 \<le> r \<and> r < int (length g) then Inr (grid_at g \<lparr>row = r, col = c\<rparr>) else Inl TypeError)"
  by (simp add: grid_read_def grid_at_def)

lemma grid_write_rect:
  assumes "rect rows cols g" and "in_grid rows cols \<lparr>row = r, col = c\<rparr>"
  shows "\<exists>g'. grid_write g r c v = Inr g' \<and> rect rows cols g' \<and>
           (\<forall>p. grid_at g' p = (if p = \<lparr>row = r, col = c\<rparr> then Some v else grid_at g p))"
proof -
  let ?g' = "g[nat r := (g ! nat r)[nat c := v]]"
  from assms have r: "0 \<le> r" "nat r < length g" "r < int (length g)"
    by (auto simp: rect_def in_grid_def)
  then have len: "length (g ! nat r) = cols"
    using assms(1) by (simp add: rect_def)
  from assms have c: "0 \<le> c" "nat c < cols" "c < int cols"
    by (auto simp: in_grid_def)
  have w: "grid_write g r c v = Inr ?g'"
    using r c len by (simp add: grid_write_def)
  have "length x = cols" if "x \<in> set ?g'" for x
  proof -
    from that set_update_subset_insert [of g "nat r" "(g ! nat r)[nat c := v]"]
    have "x = (g ! nat r)[nat c := v] \<or> x \<in> set g" by blast
    then show ?thesis using len assms(1) by (auto simp: rect_def)
  qed
  then have rect': "rect rows cols ?g'"
    using assms(1) by (simp add: rect_def)
  have "grid_at ?g' p = (if p = \<lparr>row = r, col = c\<rparr> then Some v else grid_at g p)" for p
  proof (cases "in_grid rows cols p")
    case False
    with assms(2) have "p \<noteq> \<lparr>row = r, col = c\<rparr>" by auto
    with False show ?thesis
      by (simp add: grid_at_rect [OF rect'] grid_at_rect [OF assms(1)])
  next
    case True
    then have p: "0 \<le> row p" "nat (row p) < length g" "0 \<le> col p" "nat (col p) < cols"
      using assms(1) by (auto simp: in_grid_def rect_def)
    then have lenp: "length (g ! nat (row p)) = cols"
      using assms(1) by (auto simp: rect_def)
    have "?g' ! nat (row p) ! nat (col p) =
          (if row p = r \<and> col p = c then v else g ! nat (row p) ! nat (col p))"
    proof (cases "nat (row p) = nat r")
      case True
      with p r have rp: "row p = r" by simp
      have "nat (col p) = nat c \<longleftrightarrow> col p = c" using p c by auto
      then show ?thesis using rp p r c len by (auto simp: nth_list_update)
    next
      case False
      with p r have "row p \<noteq> r" by auto
      with False show ?thesis by simp
    qed
    with True show ?thesis
      by (simp add: grid_at_rect [OF rect'] grid_at_rect [OF assms(1)] Point_eq_iff)
  qed
  with w rect' show ?thesis by blast
qed

lemma extends_refl: "extends A g g"
  by (simp add: extends_def)

lemma extends_trans: "extends A g g' \<Longrightarrow> extends A g' g'' \<Longrightarrow> extends A g g''"
  unfolding extends_def
proof (intro allI)
  fix p
  assume 1: "\<forall>p. grid_at g' p = grid_at g p \<or>
          (grid_at g p = Some [] \<and> (\<exists>ch\<in>A. grid_at g' p = Some [ch]))"
    and 2: "\<forall>p. grid_at g'' p = grid_at g' p \<or>
          (grid_at g' p = Some [] \<and> (\<exists>ch\<in>A. grid_at g'' p = Some [ch]))"
  from 1 [rule_format, of p] 2 [rule_format, of p]
  show "grid_at g'' p = grid_at g p \<or>
          (grid_at g p = Some [] \<and> (\<exists>ch\<in>A. grid_at g'' p = Some [ch]))"
    by auto
qed

lemma extends_mono: "extends A g g' \<Longrightarrow> A \<subseteq> B \<Longrightarrow> extends B g g'"
  unfolding extends_def by blast

lemma extends_keeps: "extends A g g' \<Longrightarrow> grid_at g p \<noteq> Some [] \<Longrightarrow> grid_at g' p = grid_at g p"
  unfolding extends_def by blast

lemma offset_inj: "offset d r c i = offset d r c j \<longleftrightarrow> i = j"
  by (cases d) simp_all

lemma offset_0: "offset d r c 0 = \<lparr>row = r, col = c\<rparr>"
  by (cases d) simp_all

subsection \<open>canPlaceWord\<close>

lemma canPlaceWord_loop_ok:
  assumes "\<forall>i\<in>set is. 0 \<le> row (offset d r c (int i)) \<and> row (offset d r c (int i)) < int (length g)"
  shows "\<exists>b. canPlaceWord_loop g w r c d is = Inr b \<and>
           (b \<longrightarrow> (\<forall>i\<in>set is. grid_at g (offset d r c (int i)) = Some [] \<or>
                               grid_at g (offset d r c (int i)) = Some [w ! i]))"
  using assms
proof (induction "is")
  case Nil
  then show ?case by auto
next
  case (Cons i "is")
  let ?p = "offset d r c (int i)"
  from Cons.prems have rd: "grid_read g (row ?p) (col ?p) = Inr (grid_at g ?p)"
    by (simp add: grid_read_eq)
  from Cons.IH Cons.prems obtain b where
    b: "canPlaceWord_loop g w r c d is = Inr b"
       "b \<longrightarrow> (\<forall>i\<in>set is. grid_at g (offset d r c (int i)) = Some [] \<or>
                            grid_at g (offset d r c (int i)) = Some [w ! i])"
    by auto
  show ?case
  proof (cases "grid_at g ?p \<noteq> Some [] \<and> grid_at g ?p \<noteq> Some [w ! i]")
    case True
    then show ?thesis using rd by (auto simp: Let_def)
  next
    case False
    then show ?thesis using rd b by (auto simp: Let_def)
  qed
qed

lemma offset_rows_between:
  assumes "0 \<le> r" "r < int rows" "0 \<le> c"
    and "in_grid rows cols (offset d r c (int n))" and "i \<le> n"
  shows "in_grid rows cols (offset d r c (int i))"
  using assms by (cases d) (auto simp: in_grid_def)

lemma canPlaceWord_eq:
  "canPlaceWord rows cols g w r c d =
     (if in_grid rows cols (offset d r c (int (length w) - 1))
      then canPlaceWord_loop g w r c d [0..<length w] else Inr False)"
  by (simp add: canPlaceWord_def Let_def in_grid_def not_le not_less)

text \<open>
  \<open>canPlaceWord\<close> never throws on a rectangular grid and a start cell as \<open>placeWord\<close> draws
  it, and when it says yes, the cells of the word lie on the grid and are empty or hold
  the letter the word needs.
\<close>

lemma canPlaceWord_ok:
  assumes g: "rect rows cols g" and r: "0 \<le> r" "0 < rows \<longrightarrow> r < int rows" and c: "0 \<le> c"
  shows "\<exists>b. canPlaceWord rows cols g w r c d = Inr b \<and>
           (b \<longrightarrow> 0 < rows \<and> 0 < cols \<and>
                 in_grid rows cols (offset d r c (int (length w) - 1)) \<and>
                 (\<forall>i<length w. in_grid rows cols (offset d r c (int i)) \<and>
                    (grid_at g (offset d r c (int i)) = Some [] \<or>
                     grid_at g (offset d r c (int i)) = Some [w ! i])))"
proof (cases "in_grid rows cols (offset d r c (int (length w) - 1))")
  case False
  then have "canPlaceWord rows cols g w r c d = Inr False"
    by (simp only: canPlaceWord_eq if_False)
  then show ?thesis by blast
next
  case True
  then have pos: "0 < rows" "0 < cols" unfolding in_grid_def by linarith+
  with r have r': "r < int rows" by blast
  have inb: "in_grid rows cols (offset d r c (int i))" if "i < length w" for i
  proof -
    from that have eq: "int (length w) - 1 = int (length w - 1)" and le: "i \<le> length w - 1"
      by linarith+
    from True have "in_grid rows cols (offset d r c (int (length w - 1)))"
      by (simp only: eq)
    from offset_rows_between [OF r(1) r' c this le] show ?thesis .
  qed
  have "\<forall>i\<in>set [0..<length w]. 0 \<le> row (offset d r c (int i)) \<and>
               row (offset d r c (int i)) < int (length g)"
  proof
    fix i assume "i \<in> set [0..<length w]"
    then have "in_grid rows cols (offset d r c (int i))" using inb by simp
    moreover have "length g = rows" using g by (simp add: rect_def)
    ultimately show "0 \<le> row (offset d r c (int i)) \<and> row (offset d r c (int i)) < int (length g)"
      by (simp add: in_grid_def)
  qed
  from canPlaceWord_loop_ok [OF this, of w] obtain b where
    b: "canPlaceWord_loop g w r c d [0..<length w] = Inr b"
       "b \<longrightarrow> (\<forall>i\<in>set [0..<length w]. grid_at g (offset d r c (int i)) = Some [] \<or>
                            grid_at g (offset d r c (int i)) = Some [w ! i])"
    by blast
  from True have eq: "canPlaceWord rows cols g w r c d = Inr b"
    by (simp only: canPlaceWord_eq if_True b(1))
  have "\<forall>i<length w. in_grid rows cols (offset d r c (int i)) \<and>
                    (grid_at g (offset d r c (int i)) = Some [] \<or>
                     grid_at g (offset d r c (int i)) = Some [w ! i])" if b
    using b(2) that inb by simp
  with eq True pos show ?thesis by blast
qed

subsection \<open>insertWord\<close>

lemma insertWord_loop_ok:
  assumes "rect rows cols g" and "\<forall>i\<in>set is. in_grid rows cols (offset d r c (int i))"
    and "distinct is"
  shows "\<exists>g' e'. insertWord_loop g w r c d e is = Inr (g', e') \<and> rect rows cols g' \<and>
           (\<forall>i\<in>set is. grid_at g' (offset d r c (int i)) = Some [w ! i]) \<and>
           (\<forall>p. p \<notin> (\<lambda>i. offset d r c (int i)) ` set is \<longrightarrow> grid_at g' p = grid_at g p) \<and>
           e' = (if \<exists>i\<in>set is. int i = int (length w) - 1
                 then offset d r c (int (length w) - 1) else e)"
  using assms
proof (induction "is" arbitrary: g e)
  case Nil
  then show ?case by simp
next
  case (Cons i "is")
  let ?p = "offset d r c (int i)"
  let ?e = "if int i = int (length w) - 1 then ?p else e"
  from Cons.prems have "in_grid rows cols \<lparr>row = row ?p, col = col ?p\<rparr>"
    by (simp add: in_grid_def)
  from grid_write_rect [OF Cons.prems(1) this, of "[w ! i]"] obtain g1 where
    g1: "grid_write g (row ?p) (col ?p) [w ! i] = Inr g1" "rect rows cols g1"
        "\<And>q. grid_at g1 q = (if q = ?p then Some [w ! i] else grid_at g q)"
    by auto
  from Cons.prems have "\<forall>i\<in>set is. in_grid rows cols (offset d r c (int i))" "distinct is"
    by simp_all
  from Cons.IH [OF g1(2) this, of ?e] obtain g' e' where
    r: "insertWord_loop g1 w r c d ?e is = Inr (g', e')" "rect rows cols g'"
       "\<forall>i\<in>set is. grid_at g' (offset d r c (int i)) = Some [w ! i]"
       "\<forall>p. p \<notin> (\<lambda>i. offset d r c (int i)) ` set is \<longrightarrow> grid_at g' p = grid_at g1 p"
       "e' = (if \<exists>i\<in>set is. int i = int (length w) - 1
              then offset d r c (int (length w) - 1) else ?e)"
    by blast
  from Cons.prems(3) have "?p \<notin> (\<lambda>i. offset d r c (int i)) ` set is"
    by (auto simp: offset_inj)
  with r(4) g1(3) have head: "grid_at g' ?p = Some [w ! i]" by simp
  have other: "grid_at g' p = grid_at g p"
    if "p \<notin> (\<lambda>i. offset d r c (int i)) ` set (i # is)" for p
    using that r(4) g1(3) by auto
  have e': "e' = (if \<exists>j\<in>set (i # is). int j = int (length w) - 1
                  then offset d r c (int (length w) - 1) else e)"
    using r(5) by auto
  have "insertWord_loop g w r c d e (i # is) = Inr (g', e')"
    using g1(1) r(1) by (simp add: Let_def)
  with r(2,3) head other e' show ?case by auto
qed

lemma insertWord_ok:
  assumes "rect rows cols g" and "\<forall>i<length w. in_grid rows cols (offset d r c (int i))"
  shows "\<exists>g'. insertWord g w r c d =
             Inr (g', if w = [] then \<lparr>row = r, col = c\<rparr> else offset d r c (int (length w) - 1)) \<and>
           rect rows cols g' \<and>
           (\<forall>i<length w. grid_at g' (offset d r c (int i)) = Some [w ! i]) \<and>
           (\<forall>p. p \<notin> (\<lambda>i. offset d r c (int i)) ` {0..<length w} \<longrightarrow> grid_at g' p = grid_at g p)"
proof -
  from assms(2) have "\<forall>i\<in>set [0..<length w]. in_grid rows cols (offset d r c (int i))"
    by simp
  from insertWord_loop_ok [OF assms(1) this, of w "\<lparr>row = r, col = c\<rparr>"]
  obtain g' e' where
    r: "insertWord g w r c d = Inr (g', e')" "rect rows cols g'"
       "\<forall>i\<in>set [0..<length w]. grid_at g' (offset d r c (int i)) = Some [w ! i]"
       "\<forall>p. p \<notin> (\<lambda>i. offset d r c (int i)) ` set [0..<length w] \<longrightarrow> grid_at g' p = grid_at g p"
       "e' = (if \<exists>i\<in>set [0..<length w]. int i = int (length w) - 1
              then offset d r c (int (length w) - 1) else \<lparr>row = r, col = c\<rparr>)"
    unfolding insertWord_def by auto
  have "(\<exists>i\<in>set [0..<length w]. int i = int (length w) - 1) \<longleftrightarrow> w \<noteq> []"
  proof
    assume "w \<noteq> []"
    then have "length w - 1 \<in> set [0..<length w]" "int (length w - 1) = int (length w) - 1"
      by (auto simp: Suc_leI of_nat_diff)
    then show "\<exists>i\<in>set [0..<length w]. int i = int (length w) - 1" by blast
  qed auto
  with r show ?thesis by auto
qed

subsection \<open>Lines\<close>

lemma line_points_offset:
  "line_points \<lparr>row = r, col = c\<rparr> (offset d r c (int n)) =
     map (\<lambda>i. offset d r c (int i)) [0..<Suc n]"
proof (cases "n = 0")
  case True
  then show ?thesis by (cases d) (simp_all add: line_points_def)
next
  case False
  then have "sgn (int n) = 1" "sgn (- int n) = - 1" by simp_all
  then show ?thesis
    by (cases d) (simp_all add: line_points_def Let_def)
qed

lemma straight_offset: "straight \<lparr>row = r, col = c\<rparr> (offset d r c i)"
  by (cases d) (simp_all add: straight_def)

lemma line_spells_offset:
  assumes "w \<noteq> []" and "\<forall>i<length w. grid_at g (offset d r c (int i)) = Some [w ! i]"
  shows "line_spells g \<lparr>row = r, col = c\<rparr> (offset d r c (int (length w) - 1)) w"
proof -
  from assms(1) have n: "int (length w) - 1 = int (length w - 1)" "Suc (length w - 1) = length w"
    by (simp_all add: Suc_leI of_nat_diff)
  have "map (grid_at g) (map (\<lambda>i. offset d r c (int i)) [0..<length w]) =
        map (\<lambda>ch. Some [ch]) w"
    using assms(2) by (intro nth_equalityI) simp_all
  then show ?thesis
    unfolding line_spells_def n(1) line_points_offset n(2)
    using straight_offset by simp
qed

lemma line_spells_extends:
  assumes "line_spells g s e w" and "extends A g g'"
  shows "line_spells g' s e w"
proof -
  from assms(1) have st: "straight s e"
    and eq: "map (grid_at g) (line_points s e) = map (\<lambda>ch. Some [ch]) w"
    by (simp_all add: line_spells_def)
  have "grid_at g' p = grid_at g p" if "p \<in> set (line_points s e)" for p
  proof -
    from that obtain i where i: "i < length (line_points s e)" "p = line_points s e ! i"
      by (auto simp: in_set_conv_nth)
    from eq have "length (line_points s e) = length w"
      by (metis length_map)
    with i eq have "grid_at g p = Some [w ! i]"
      by (metis nth_map)
    then have "grid_at g p \<noteq> Some []" by simp
    from extends_keeps [OF assms(2) this] show ?thesis .
  qed
  then have "map (grid_at g') (line_points s e) = map (grid_at g) (line_points s e)"
    by simp
  with st eq show ?thesis by (simp add: line_spells_def)
qed

lemma placed_ok_extends: "placed_ok rows cols g wl \<Longrightarrow> extends A g g' \<Longrightarrow> placed_ok rows cols g' wl"
  unfolding placed_ok_def using line_spells_extends by blast

subsection \<open>placeWord\<close>

lemma random_below_less: "0 < n \<Longrightarrow> random_below rnd k n < n"
  by (simp add: random_below_def)

lemma word_fits:
  assumes "0 \<le> r" "0 \<le> c" "in_grid rows cols (offset d r c (int (length w) - 1))"
  shows "length w \<le> rows \<or> length w \<le> cols"
  using assms by (cases d) (auto simp: in_grid_def)

lemma placeWord_loop_ok:
  assumes "rect rows cols g"
  shows "\<exists>g' res k'. placeWord_loop rows cols rnd k n g w = Inr (g', res, k') \<and>
           rect rows cols g' \<and> extends (set w) g g' \<and>
           (\<forall>wl. res = Some wl \<longrightarrow> wl_word wl = w \<and> placed_ok rows cols g' wl)"
proof (induction n arbitrary: k)
  case 0
  show ?case using assms by (simp add: extends_refl)
next
  case (Suc n)
  define d where "d = DIRECTIONS ! random_below rnd k (length DIRECTIONS)"
  define r where "r = int (random_below rnd (k + 1) rows)"
  define c where "c = int (random_below rnd (k + 2) cols)"
  have r: "0 \<le> r" "0 < rows \<longrightarrow> r < int rows" and c: "0 \<le> c"
    by (simp_all add: r_def c_def random_below_less)
  from canPlaceWord_ok [OF assms r c, of w d] obtain b where
    b: "canPlaceWord rows cols g w r c d = Inr b"
       "b \<longrightarrow> 0 < rows \<and> 0 < cols \<and>
                 in_grid rows cols (offset d r c (int (length w) - 1)) \<and>
                 (\<forall>i<length w. in_grid rows cols (offset d r c (int i)) \<and>
                    (grid_at g (offset d r c (int i)) = Some [] \<or>
                     grid_at g (offset d r c (int i)) = Some [w ! i]))"
    by blast
  show ?case
  proof (cases b)
    case False
    with b(1) have "placeWord_loop rows cols rnd k (Suc n) g w =
                    placeWord_loop rows cols rnd (k + 3) n g w"
      by (simp add: Let_def d_def r_def c_def)
    with Suc.IH [of "k + 3"] show ?thesis by simp
  next
    case True
    with b(2) have pos: "0 < rows" "0 < cols"
      and endp: "in_grid rows cols (offset d r c (int (length w) - 1))"
      and inb: "\<forall>i<length w. in_grid rows cols (offset d r c (int i))"
      and cells: "\<forall>i<length w. grid_at g (offset d r c (int i)) = Some [] \<or>
                     grid_at g (offset d r c (int i)) = Some [w ! i]"
      by blast+
    let ?e = "if w = [] then \<lparr>row = r, col = c\<rparr> else offset d r c (int (length w) - 1)"
    from insertWord_ok [OF assms inb] obtain g' where
      g': "insertWord g w r c d = Inr (g', ?e)" "rect rows cols g'"
          "\<forall>i<length w. grid_at g' (offset d r c (int i)) = Some [w ! i]"
          "\<forall>p. p \<notin> (\<lambda>i. offset d r c (int i)) ` {0..<length w} \<longrightarrow> grid_at g' p = grid_at g p"
      by blast
    let ?wl = "\<lparr>wl_word = w, wl_start = \<lparr>row = r, col = c\<rparr>, wl_end = ?e\<rparr>"
    have res: "placeWord_loop rows cols rnd k (Suc n) g w = Inr (g', Some ?wl, k + 3)"
      using b(1) True g'(1) by (simp add: Let_def d_def r_def c_def)
    have ext: "extends (set w) g g'"
      unfolding extends_def
    proof
      fix p
      show "grid_at g' p = grid_at g p \<or>
            (grid_at g p = Some [] \<and> (\<exists>ch\<in>set w. grid_at g' p = Some [ch]))"
      proof (cases "p \<in> (\<lambda>i. offset d r c (int i)) ` {0..<length w}")
        case False
        with g'(4) show ?thesis by simp
      next
        case True
        then obtain i where i: "i < length w" "p = offset d r c (int i)" by auto
        with g'(3) cells have "grid_at g' p = Some [w ! i]"
          "grid_at g p = Some [] \<or> grid_at g p = Some [w ! i]" by simp_all
        moreover from i have "w ! i \<in> set w" by simp
        ultimately show ?thesis by auto
      qed
    qed
    have "placed_ok rows cols g' ?wl"
      using pos word_fits [OF r(1) c endp] line_spells_offset [OF _ g'(3)]
      by (simp add: placed_ok_def)
    with res g'(2) ext show ?thesis by simp
  qed
qed

lemma placeWord_ok:
  assumes "rect rows cols g"
  shows "\<exists>g' res k'. placeWord rows cols rnd k g w = Inr (g', res, k') \<and>
           rect rows cols g' \<and> extends (set w) g g' \<and>
           (\<forall>wl. res = Some wl \<longrightarrow> wl_word wl = w \<and> placed_ok rows cols g' wl)"
  unfolding placeWord_def using placeWord_loop_ok [OF assms] .

subsection \<open>The loop of generate\<close>

lemma generate_loop_ok:
  assumes "rect rows cols g"
    and "\<forall>wl\<in>set placed. placed_ok rows cols g wl \<and> wl_word wl \<in> W"
    and "\<forall>w\<in>set ws. toUpperCase w \<in> W" and "\<forall>u\<in>W. set u \<subseteq> A"
  shows "\<exists>g' placed' k'. generate_loop rows cols rnd k g placed ws = Inr (g', placed', k') \<and>
           rect rows cols g' \<and> extends A g g' \<and>
           (\<forall>wl\<in>set placed'. placed_ok rows cols g' wl \<and> wl_word wl \<in> W)"
  using assms(1-3)
proof (induction ws arbitrary: k g placed)
  case Nil
  then show ?case by (simp add: extends_refl)
next
  case (Cons w ws)
  from placeWord_ok [OF Cons.prems(1), of rnd k "toUpperCase w"] obtain g1 res k1 where
    p: "placeWord rows cols rnd k g (toUpperCase w) = Inr (g1, res, k1)" "rect rows cols g1"
       "extends (set (toUpperCase w)) g g1"
       "\<forall>wl. res = Some wl \<longrightarrow> wl_word wl = toUpperCase w \<and> placed_ok rows cols g1 wl"
    by blast
  from Cons.prems(3) assms(4) have "set (toUpperCase w) \<subseteq> A" by simp
  with p(3) have ext1: "extends A g g1" by (rule extends_mono)
  have old: "\<forall>wl\<in>set placed. placed_ok rows cols g1 wl \<and> wl_word wl \<in> W"
    using Cons.prems(2) placed_ok_extends [OF _ ext1] by blast
  from Cons.prems(3) have rest: "\<forall>w\<in>set ws. toUpperCase w \<in> W" and wW: "toUpperCase w \<in> W"
    by simp_all
  show ?case
  proof (cases res)
    case None
    from Cons.IH [OF p(2) old rest, of k1] obtain g' placed' k' where
      r: "generate_loop rows cols rnd k1 g1 placed ws = Inr (g', placed', k')"
         "rect rows cols g'" "extends A g1 g'"
         "\<forall>wl\<in>set placed'. placed_ok rows cols g' wl \<and> wl_word wl \<in> W"
      by blast
    from p(1) None r(1)
    have "generate_loop rows cols rnd k g placed (w # ws) = Inr (g', placed', k')" by simp
    with r extends_trans [OF ext1 r(3)] show ?thesis by blast
  next
    case (Some wl)
    with p(4) wW have "\<forall>x\<in>set (placed @ [wl]). placed_ok rows cols g1 x \<and> wl_word x \<in> W"
      using old by simp
    from Cons.IH [OF p(2) this rest, of k1] obtain g' placed' k' where
      r: "generate_loop rows cols rnd k1 g1 (placed @ [wl]) ws = Inr (g', placed', k')"
         "rect rows cols g'" "extends A g1 g'"
         "\<forall>wl\<in>set placed'. placed_ok rows cols g' wl \<and> wl_word wl \<in> W"
      by blast
    from p(1) Some r(1)
    have "generate_loop rows cols rnd k g placed (w # ws) = Inr (g', placed', k')" by simp
    with r extends_trans [OF ext1 r(3)] show ?thesis by blast
  qed
qed

subsection \<open>fillEmptyCells\<close>

lemma random_letter: "letters ! random_below rnd k (length letters) \<in> set letters"
  by (rule nth_mem) (simp add: random_below_less letters_def)

lemma fillEmptyCells_cols_ok:
  assumes "rect rows cols g" and "r < rows" and "\<forall>c\<in>set cs. c < cols"
  shows "\<exists>g' k'. fillEmptyCells_cols rnd k g r cs = Inr (g', k') \<and> rect rows cols g' \<and>
           extends (set letters) g g' \<and>
           (\<forall>c\<in>set cs. grid_at g' \<lparr>row = int r, col = int c\<rparr> \<noteq> Some [])"
  using assms(1,3)
proof (induction cs arbitrary: k g)
  case Nil
  then show ?case by (simp add: extends_refl)
next
  case (Cons c cs)
  let ?p = "\<lparr>row = int r, col = int c\<rparr>"
  from Cons.prems assms(2) have inb: "in_grid rows cols ?p"
    by (simp add: in_grid_def)
  from Cons.prems(1) assms(2) have rd: "grid_read g (int r) (int c) = Inr (grid_at g ?p)"
    by (simp add: grid_read_eq rect_def)
  from Cons.prems(2) have rest: "\<forall>c\<in>set cs. c < cols" by simp
  show ?case
  proof (cases "grid_at g ?p = Some []")
    case True
    let ?l = "letters ! random_below rnd k (length letters)"
    from grid_write_rect [OF Cons.prems(1) inb, of "[?l]"] obtain g1 where
      g1: "grid_write g (int r) (int c) [?l] = Inr g1" "rect rows cols g1"
          "\<And>q. grid_at g1 q = (if q = ?p then Some [?l] else grid_at g q)"
      by auto
    have ext1: "extends (set letters) g g1"
      unfolding extends_def using g1(3) True random_letter [of rnd k] by auto
    from Cons.IH [OF g1(2) rest, of "k + 1"] obtain g' k' where
      r: "fillEmptyCells_cols rnd (k + 1) g1 r cs = Inr (g', k')" "rect rows cols g'"
         "extends (set letters) g1 g'"
         "\<forall>c\<in>set cs. grid_at g' \<lparr>row = int r, col = int c\<rparr> \<noteq> Some []"
      by blast
    have "grid_at g1 ?p \<noteq> Some []" using g1(3) by simp
    from extends_keeps [OF r(3) this] g1(3) have "grid_at g' ?p \<noteq> Some []" by simp
    moreover have "fillEmptyCells_cols rnd k g r (c # cs) = Inr (g', k')"
      using rd True g1(1) r(1) by simp
    ultimately show ?thesis
      using r(2,4) extends_trans [OF ext1 r(3)] by auto
  next
    case False
    from Cons.IH [OF Cons.prems(1) rest, of k] obtain g' k' where
      r: "fillEmptyCells_cols rnd k g r cs = Inr (g', k')" "rect rows cols g'"
         "extends (set letters) g g'"
         "\<forall>c\<in>set cs. grid_at g' \<lparr>row = int r, col = int c\<rparr> \<noteq> Some []"
      by blast
    from extends_keeps [OF r(3) False] False have "grid_at g' ?p \<noteq> Some []" by simp
    moreover have "fillEmptyCells_cols rnd k g r (c # cs) = Inr (g', k')"
      using rd False r(1) by simp
    ultimately show ?thesis using r(2,3,4) by auto
  qed
qed

lemma fillEmptyCells_rows_ok:
  assumes "rect rows cols g" and "\<forall>r\<in>set rs. r < rows"
  shows "\<exists>g' k'. fillEmptyCells_rows cols rnd k g rs = Inr (g', k') \<and> rect rows cols g' \<and>
           extends (set letters) g g' \<and>
           (\<forall>r\<in>set rs. \<forall>c<cols. grid_at g' \<lparr>row = int r, col = int c\<rparr> \<noteq> Some [])"
  using assms
proof (induction rs arbitrary: k g)
  case Nil
  then show ?case by (simp add: extends_refl)
next
  case (Cons r rs)
  from Cons.prems(2) have r: "r < rows" and rest: "\<forall>r\<in>set rs. r < rows" by simp_all
  have "\<forall>c\<in>set [0..<cols]. c < cols" by simp
  from fillEmptyCells_cols_ok [OF Cons.prems(1) r this, of rnd k] obtain g1 k1 where
    g1: "fillEmptyCells_cols rnd k g r [0..<cols] = Inr (g1, k1)" "rect rows cols g1"
        "extends (set letters) g g1"
        "\<forall>c\<in>set [0..<cols]. grid_at g1 \<lparr>row = int r, col = int c\<rparr> \<noteq> Some []"
    by blast
  from Cons.IH [OF g1(2) rest, of k1] obtain g' k' where
    r': "fillEmptyCells_rows cols rnd k1 g1 rs = Inr (g', k')" "rect rows cols g'"
        "extends (set letters) g1 g'"
        "\<forall>r\<in>set rs. \<forall>c<cols. grid_at g' \<lparr>row = int r, col = int c\<rparr> \<noteq> Some []"
    by blast
  have "grid_at g' \<lparr>row = int r, col = int c\<rparr> \<noteq> Some []" if "c < cols" for c
  proof -
    from that g1(4) have ne: "grid_at g1 \<lparr>row = int r, col = int c\<rparr> \<noteq> Some []" by simp
    from extends_keeps [OF r'(3) ne] ne show ?thesis by simp
  qed
  moreover have "fillEmptyCells_rows cols rnd k g (r # rs) = Inr (g', k')"
    using g1(1) r'(1) by simp
  ultimately show ?case
    using r'(2,4) extends_trans [OF g1(3) r'(3)] by auto
qed

lemma fillEmptyCells_ok:
  assumes "rect rows cols g"
  shows "\<exists>g' k'. fillEmptyCells rows cols rnd k g = Inr (g', k') \<and> rect rows cols g' \<and>
           extends (set letters) g g' \<and>
           (\<forall>p. in_grid rows cols p \<longrightarrow> grid_at g' p \<noteq> Some [])"
proof -
  have "\<forall>r\<in>set [0..<rows]. r < rows" by simp
  from fillEmptyCells_rows_ok [OF assms this, of rnd k] obtain g' k' where
    r: "fillEmptyCells rows cols rnd k g = Inr (g', k')" "rect rows cols g'"
       "extends (set letters) g g'"
       "\<forall>r\<in>set [0..<rows]. \<forall>c<cols. grid_at g' \<lparr>row = int r, col = int c\<rparr> \<noteq> Some []"
    unfolding fillEmptyCells_def by blast
  have "grid_at g' p \<noteq> Some []" if "in_grid rows cols p" for p
  proof -
    from that have "nat (row p) \<in> set [0..<rows]" "nat (col p) < cols"
      "p = \<lparr>row = int (nat (row p)), col = int (nat (col p))\<rparr>"
      by (auto simp: in_grid_def)
    with r(4) show ?thesis by metis
  qed
  with r show ?thesis by blast
qed

subsection \<open>generate\<close>

lemma set_array_from_Set_aux:
  "set (foldl (\<lambda>acc w. if w \<in> set acc then acc else acc @ [w]) acc ws) = set acc \<union> set ws"
  by (induction ws arbitrary: acc) auto

lemma set_array_from_Set: "set (array_from_Set ws) = set ws"
  by (simp add: array_from_Set_def set_array_from_Set_aux)

lemma rect_replicate: "rect rows cols (replicate rows (replicate cols []))"
  by (simp add: rect_def)

lemma grid_at_replicate:
  "grid_at (replicate rows (replicate cols [])) p = (if in_grid rows cols p then Some [] else None)"
proof (cases "in_grid rows cols p")
  case True
  then have "nat (row p) < rows" "nat (col p) < cols" by (auto simp: in_grid_def)
  then have "replicate rows (replicate cols []) ! nat (row p) ! nat (col p) = []" by simp
  with True show ?thesis by (simp add: grid_at_rect [OF rect_replicate])
next
  case False
  then show ?thesis by (simp add: grid_at_rect [OF rect_replicate])
qed

text \<open>
  \<open>generate\<close> always returns a grid state: the grid has the requested shape, every cell
  holds one character, a letter of the alphabet of \<open>fillEmptyCells\<close> or a character of an
  uppercased input word, and every placed word is the uppercase of an input word and
  satisfies \<open>placed_ok\<close>.
\<close>

lemma generate_ok:
  "\<exists>gs. generate rows cols rnd ws = Inr gs \<and> rect rows cols (gs_grid gs) \<and>
     (\<forall>wl\<in>set (gs_words gs).
        placed_ok rows cols (gs_grid gs) wl \<and> wl_word wl \<in> toUpperCase ` set ws) \<and>
     (\<forall>p. in_grid rows cols p \<longrightarrow>
        (\<exists>ch\<in>set letters \<union> \<Union>(set ` toUpperCase ` set ws). grid_at (gs_grid gs) p = Some [ch]))"
proof -
  let ?g0 = "replicate rows (replicate cols [])"
  let ?sorted = "sort_key (\<lambda>w. - int (length w)) (array_from_Set ws)"
  let ?W = "toUpperCase ` set ws"
  let ?A = "set letters \<union> \<Union>(set ` ?W)"
  have 1: "\<forall>wl\<in>set ([] :: WordLocation list). placed_ok rows cols ?g0 wl \<and> wl_word wl \<in> ?W"
    by simp
  have 2: "\<forall>w\<in>set ?sorted. toUpperCase w \<in> ?W"
    by (simp add: set_array_from_Set)
  have 3: "\<forall>u\<in>?W. set u \<subseteq> ?A" by blast
  from generate_loop_ok [OF rect_replicate 1 2 3, of rnd 0] obtain g1 placed k1 where
    l: "generate_loop rows cols rnd 0 ?g0 [] ?sorted = Inr (g1, placed, k1)"
       "rect rows cols g1" "extends ?A ?g0 g1"
       "\<forall>wl\<in>set placed. placed_ok rows cols g1 wl \<and> wl_word wl \<in> ?W"
    by blast
  from fillEmptyCells_ok [OF l(2), of rnd k1] obtain g2 k2 where
    f: "fillEmptyCells rows cols rnd k1 g1 = Inr (g2, k2)" "rect rows cols g2"
       "extends (set letters) g1 g2"
       "\<forall>p. in_grid rows cols p \<longrightarrow> grid_at g2 p \<noteq> Some []"
    by blast
  have ext2: "extends ?A g1 g2" using f(3) by (rule extends_mono) simp
  have ext: "extends ?A ?g0 g2" using l(3) ext2 by (rule extends_trans)
  have gen: "generate rows cols rnd ws = Inr \<lparr>gs_grid = g2, gs_words = placed\<rparr>"
    using l(1) f(1) by (simp add: generate_def)
  have words: "\<forall>wl\<in>set placed. placed_ok rows cols g2 wl \<and> wl_word wl \<in> ?W"
    using l(4) placed_ok_extends [OF _ ext2] by blast
  have cells: "\<exists>ch\<in>?A. grid_at g2 p = Some [ch]" if "in_grid rows cols p" for p
  proof -
    from that have "grid_at ?g0 p = Some []" by (simp add: grid_at_replicate)
    with ext have "grid_at g2 p = Some [] \<or> (\<exists>ch\<in>?A. grid_at g2 p = Some [ch])"
      unfolding extends_def by metis
    with f(4) that show ?thesis by blast
  qed
  from gen f(2) words cells show ?thesis by simp
qed

subsection \<open>Uppercase\<close>

lemma letters_not_lower: "u \<in> set letters \<Longrightarrow> u \<notin> set lower_letters"
  by (auto simp: lower_letters_def letters_def)

lemma toUpperCase_char_idem: "toUpperCase_char (toUpperCase_char c) = toUpperCase_char c"
proof (cases "map_of (zip lower_letters letters) c")
  case None
  then show ?thesis by (simp add: toUpperCase_char_def)
next
  case (Some u)
  then have "u \<in> set letters"
    by (meson map_of_SomeD set_zip_rightD)
  then have "u \<notin> set lower_letters" by (rule letters_not_lower)
  moreover have "length lower_letters = length letters"
    by (simp add: lower_letters_def letters_def)
  ultimately have "map_of (zip lower_letters letters) u = None"
    by (simp add: map_of_zip_is_None)
  with Some show ?thesis by (simp add: toUpperCase_char_def)
qed

lemma toUpperCase_idem [simp]: "toUpperCase (toUpperCase s) = toUpperCase s"
  by (simp add: toUpperCase_def toUpperCase_char_idem)

lemma toUpperCase_char_letter:
  "c \<in> set letters \<union> set lower_letters \<Longrightarrow> toUpperCase_char c \<in> set letters"
  by (auto simp: toUpperCase_char_def lower_letters_def letters_def)

section \<open>Claims about the generator\<close>

lemma line_spells_nth:
  assumes "line_spells g s e w" and "i < length w"
  shows "grid_at g (line_points s e ! i) = Some [w ! i]"
proof -
  from assms(1) have eq: "map (grid_at g) (line_points s e) = map (\<lambda>ch. Some [ch]) w"
    by (simp add: line_spells_def)
  then have "length (line_points s e) = length w" by (metis length_map)
  with eq assms(2) show ?thesis by (metis nth_map)
qed

text \<open>
  C1. As stated the claim fails for the empty word, which \<open>canPlaceWord\<close> accepts wherever
  the cell before the start lies on the grid (\<open>len - 1\<close> is \<open>-1\<close>) and for which
  \<open>insertWord\<close> returns the start as the end: on a grid of one row and two columns, with
  the draws 0, 0, 1 (horizontal, row 0, column 1), the empty word is placed from (0, 1)
  to (0, 1), and reading that line yields the one letter of the cell, not the empty word.
\<close>

theorem generate_empty_word_counterexample:
  "generate 1 2 (rnd_of_list [0, 0, 1]) [''''] =
     Inr \<lparr>gs_grid = [[''A'', ''A'']],
          gs_words = [\<lparr>wl_word = '''', wl_start = \<lparr>row = 0, col = 1\<rparr>,
                       wl_end = \<lparr>row = 0, col = 1\<rparr>\<rparr>]\<rparr> \<and>
   \<not> line_spells [[''A'', ''A'']] \<lparr>row = 0, col = 1\<rparr> \<lparr>row = 0, col = 1\<rparr> ''''"
  by code_simp

text \<open>
  C1, amended. For every input word list, grid dimensions and random draws, \<open>generate\<close>
  returns a grid state in which every placed word is the uppercase of an input word
  and, unless it is the empty string, is read exactly along the straight line from its
  start to its end; and a cell shared by two placed words (the \<open>i\<close>-th of one line and the
  \<open>j\<close>-th of another) holds the single letter both words require there.
\<close>

theorem generate_placement_sound:
  "\<exists>gs. generate rows cols rnd ws = Inr gs \<and>
     (\<forall>wl\<in>set (gs_words gs).
        wl_word wl \<in> toUpperCase ` set ws \<and>
        (wl_word wl \<noteq> [] \<longrightarrow>
           line_spells (gs_grid gs) (wl_start wl) (wl_end wl) (wl_word wl))) \<and>
     (\<forall>wl\<in>set (gs_words gs). \<forall>wl'\<in>set (gs_words gs).
        \<forall>i<length (wl_word wl). \<forall>j<length (wl_word wl').
          line_points (wl_start wl) (wl_end wl) ! i =
          line_points (wl_start wl') (wl_end wl') ! j \<longrightarrow>
          wl_word wl ! i = wl_word wl' ! j \<and>
          grid_at (gs_grid gs) (line_points (wl_start wl) (wl_end wl) ! i) =
            Some [wl_word wl ! i])"
proof -
  from generate_ok [of rows cols rnd ws] obtain gs where
    gs: "generate rows cols rnd ws = Inr gs"
        "\<forall>wl\<in>set (gs_words gs).
           placed_ok rows cols (gs_grid gs) wl \<and> wl_word wl \<in> toUpperCase ` set ws"
    by blast
  have spells: "line_spells (gs_grid gs) (wl_start wl) (wl_end wl) (wl_word wl)"
    if "wl \<in> set (gs_words gs)" "wl_word wl \<noteq> []" for wl
    using gs(2) that by (simp add: placed_ok_def)
  have shared: "wl_word wl ! i = wl_word wl' ! j \<and>
          grid_at (gs_grid gs) (line_points (wl_start wl) (wl_end wl) ! i) =
            Some [wl_word wl ! i]"
    if "wl \<in> set (gs_words gs)" "wl' \<in> set (gs_words gs)"
      "i < length (wl_word wl)" "j < length (wl_word wl')"
      "line_points (wl_start wl) (wl_end wl) ! i = line_points (wl_start wl') (wl_end wl') ! j"
    for wl wl' i j
  proof -
    from that(3,4) have "wl_word wl \<noteq> []" "wl_word wl' \<noteq> []" by auto
    with that(1,2) spells
    have "line_spells (gs_grid gs) (wl_start wl) (wl_end wl) (wl_word wl)"
      "line_spells (gs_grid gs) (wl_start wl') (wl_end wl') (wl_word wl')" by blast+
    from line_spells_nth [OF this(1) that(3)] line_spells_nth [OF this(2) that(4)] that(5)
    show ?thesis by simp
  qed
  from gs spells shared show ?thesis by blast
qed

theorem generate_placement_sound_witness:
  "generate 1 3 (rnd_of_list []) [''cat''] =
     Inr \<lparr>gs_grid = [[''C'', ''A'', ''T'']],
          gs_words = [\<lparr>wl_word = ''CAT'', wl_start = \<lparr>row = 0, col = 0\<rparr>,
                       wl_end = \<lparr>row = 0, col = 2\<rparr>\<rparr>]\<rparr> \<and>
   ''CAT'' \<noteq> [] \<and>
   line_spells [[''C'', ''A'', ''T'']] \<lparr>row = 0, col = 0\<rparr> \<lparr>row = 0, col = 2\<rparr> ''CAT''"
proof -
  have ev: "generate 1 3 (rnd_of_list []) [''cat''] =
     Inr \<lparr>gs_grid = [[''C'', ''A'', ''T'']],
          gs_words = [\<lparr>wl_word = ''CAT'', wl_start = \<lparr>row = 0, col = 0\<rparr>,
                       wl_end = \<lparr>row = 0, col = 2\<rparr>\<rparr>]\<rparr>"
    by code_simp
  from generate_placement_sound [of 1 3 "rnd_of_list []" "[''cat'']"] obtain gs where
    gs: "generate 1 3 (rnd_of_list []) [''cat''] = Inr gs"
      "\<forall>wl\<in>set (gs_words gs). wl_word wl \<noteq> [] \<longrightarrow>
         line_spells (gs_grid gs) (wl_start wl) (wl_end wl) (wl_word wl)"
    by blast
  from gs(1) have "gs = \<lparr>gs_grid = [[''C'', ''A'', ''T'']],
          gs_words = [\<lparr>wl_word = ''CAT'', wl_start = \<lparr>row = 0, col = 0\<rparr>,
                       wl_end = \<lparr>row = 0, col = 2\<rparr>\<rparr>]\<rparr>"
    unfolding ev by simp
  with gs(2) ev show ?thesis by simp
qed

text \<open>
  C4. \<open>new Set(words)\<close> removes only strings that are written the same; the words are
  put in upper case afterwards, when each is placed. The input \<open>cat\<close>, \<open>CAT\<close> on a grid of
  three rows and columns, with every draw 0, is placed twice, as CAT and CAT.
\<close>

theorem generate_case_duplicates:
  "generate 3 3 (rnd_of_list []) [''cat'', ''CAT''] =
     Inr \<lparr>gs_grid = [[''C'', ''A'', ''T''], [''A'', ''A'', ''A''], [''A'', ''A'', ''A'']],
          gs_words =
            [\<lparr>wl_word = ''CAT'', wl_start = \<lparr>row = 0, col = 0\<rparr>, wl_end = \<lparr>row = 0, col = 2\<rparr>\<rparr>,
             \<lparr>wl_word = ''CAT'', wl_start = \<lparr>row = 0, col = 0\<rparr>, wl_end = \<lparr>row = 0, col = 2\<rparr>\<rparr>]\<rparr>"
  by code_simp

text \<open>
  C7. As stated the claim fails for a word with a character that is not a letter: the
  word \<open>1\<close> on a grid of one cell is placed at the first attempt, whatever is drawn, and
  the only cell of the grid holds the digit.
\<close>

theorem generate_digit_counterexample:
  "generate 1 1 (rnd_of_list []) [''1''] =
     Inr \<lparr>gs_grid = [[''1'']],
          gs_words = [\<lparr>wl_word = ''1'', wl_start = \<lparr>row = 0, col = 0\<rparr>,
                       wl_end = \<lparr>row = 0, col = 0\<rparr>\<rparr>]\<rparr> \<and>
   CHR ''1'' \<notin> set letters"
  by code_simp

text \<open>
  C7, amended. For every number of rows and columns and every input word list whose
  words consist of letters (a..z, A..Z) only, the grid returned by \<open>generate\<close> has the
  requested shape and every cell holds exactly one uppercase letter; no cell is empty.
\<close>

theorem generate_coverage:
  assumes "\<forall>w\<in>set ws. set w \<subseteq> set letters \<union> set lower_letters"
  shows "\<exists>gs. generate rows cols rnd ws = Inr gs \<and> length (gs_grid gs) = rows \<and>
           (\<forall>r\<in>set (gs_grid gs). length r = cols \<and> (\<forall>cell\<in>set r. \<exists>ch\<in>set letters. cell = [ch]))"
proof -
  let ?A = "set letters \<union> \<Union>(set ` toUpperCase ` set ws)"
  from generate_ok [of rows cols rnd ws] obtain gs where
    "generate rows cols rnd ws = Inr gs \<and> rect rows cols (gs_grid gs) \<and>
     (\<forall>wl\<in>set (gs_words gs).
        placed_ok rows cols (gs_grid gs) wl \<and> wl_word wl \<in> toUpperCase ` set ws) \<and>
     (\<forall>p. in_grid rows cols p \<longrightarrow> (\<exists>ch\<in>?A. grid_at (gs_grid gs) p = Some [ch]))" ..
  then have
    gs: "generate rows cols rnd ws = Inr gs" "rect rows cols (gs_grid gs)"
        "\<forall>p. in_grid rows cols p \<longrightarrow> (\<exists>ch\<in>?A. grid_at (gs_grid gs) p = Some [ch])"
    by simp_all
  have "ch \<in> set letters" if "w \<in> set ws" "ch \<in> set (toUpperCase w)" for w ch
  proof -
    from that(2) obtain c where c: "c \<in> set w" "ch = toUpperCase_char c"
      by (auto simp: toUpperCase_def)
    with assms that(1) have "c \<in> set letters \<union> set lower_letters" by blast
    with c(2) show ?thesis by (simp only: toUpperCase_char_letter)
  qed
  then have A: "?A \<subseteq> set letters" by blast
  have cell: "\<exists>ch\<in>set letters. cell = [ch]"
    if "r \<in> set (gs_grid gs)" "cell \<in> set r" for r cell
  proof -
    from that(1) obtain i where i: "i < length (gs_grid gs)" "r = gs_grid gs ! i"
      by (auto simp: in_set_conv_nth)
    from that(2) obtain j where j: "j < length r" "cell = r ! j"
      by (auto simp: in_set_conv_nth)
    from gs(2) that(1) have len: "length (gs_grid gs) = rows" "length r = cols"
      by (simp_all add: rect_def)
    with i j have inb: "in_grid rows cols \<lparr>row = int i, col = int j\<rparr>"
      by (simp add: in_grid_def)
    with gs(3) obtain ch where
      ch: "ch \<in> ?A" "grid_at (gs_grid gs) \<lparr>row = int i, col = int j\<rparr> = Some [ch]"
      by blast
    from inb i j have "grid_at (gs_grid gs) \<lparr>row = int i, col = int j\<rparr> = Some cell"
      by (simp add: grid_at_rect [OF gs(2)])
    with ch have "cell = [ch]" by simp
    moreover from A ch(1) have "ch \<in> set letters" by (rule subsetD)
    ultimately show ?thesis by blast
  qed
  have "length r = cols" if "r \<in> set (gs_grid gs)" for r
    using gs(2) that by (simp add: rect_def)
  moreover have "length (gs_grid gs) = rows"
    using gs(2) by (simp add: rect_def)
  ultimately show ?thesis using gs(1) cell by blast
qed

theorem generate_coverage_witness:
  "set ''cat'' \<subseteq> set letters \<union> set lower_letters \<and>
   generate 1 3 (rnd_of_list []) [''cat''] =
     Inr \<lparr>gs_grid = [[''C'', ''A'', ''T'']],
          gs_words = [\<lparr>wl_word = ''CAT'', wl_start = \<lparr>row = 0, col = 0\<rparr>,
                       wl_end = \<lparr>row = 0, col = 2\<rparr>\<rparr>]\<rparr> \<and>
   length [''C'', ''A'', ''T''] = 3 \<and>
   set [''C'', ''A'', ''T''] \<subseteq> (\<lambda>ch. [ch]) ` set letters"
proof -
  have h: "\<forall>w\<in>set [''cat'']. set w \<subseteq> set letters \<union> set lower_letters"
    by code_simp
  have ev: "generate 1 3 (rnd_of_list []) [''cat''] =
     Inr \<lparr>gs_grid = [[''C'', ''A'', ''T'']],
          gs_words = [\<lparr>wl_word = ''CAT'', wl_start = \<lparr>row = 0, col = 0\<rparr>,
                       wl_end = \<lparr>row = 0, col = 2\<rparr>\<rparr>]\<rparr>"
    by code_simp
  from generate_coverage [OF h, of 1 3 "rnd_of_list []"] obtain gs where
    gs: "generate 1 3 (rnd_of_list []) [''cat''] = Inr gs"
      "\<forall>r\<in>set (gs_grid gs). length r = 3 \<and> (\<forall>cell\<in>set r. \<exists>ch\<in>set letters. cell = [ch])"
    by blast
  from gs(1) have "gs_grid gs = [[''C'', ''A'', ''T'']]"
    unfolding ev by auto
  with gs(2) have "\<forall>cell\<in>set [''C'', ''A'', ''T'']. \<exists>ch\<in>set letters. cell = [ch]"
    by simp
  then have "set [''C'', ''A'', ''T''] \<subseteq> (\<lambda>ch. [ch]) ` set letters"
    by blast
  with h ev show ?thesis by simp
qed

text \<open>
  C8. A word that is longer than the number of rows and longer than the number of
  columns, or any word but the empty one when the grid has no rows or no columns, is
  never placed: neither the word nor its uppercase is in the returned list of words, and
  \<open>generate\<close> returns a grid state, not an error.
\<close>

theorem generate_drops_long_words:
  "\<exists>gs. generate rows cols rnd ws = Inr gs \<and>
     ((rows < length w \<and> cols < length w) \<or> ((rows = 0 \<or> cols = 0) \<and> w \<noteq> []) \<longrightarrow>
      w \<notin> wl_word ` set (gs_words gs) \<and> toUpperCase w \<notin> wl_word ` set (gs_words gs))"
proof -
  from generate_ok [of rows cols rnd ws] obtain gs where
    gs: "generate rows cols rnd ws = Inr gs"
        "\<forall>wl\<in>set (gs_words gs). placed_ok rows cols (gs_grid gs) wl"
    by blast
  have "u \<notin> wl_word ` set (gs_words gs)"
    if "(rows < length u \<and> cols < length u) \<or> ((rows = 0 \<or> cols = 0) \<and> u \<noteq> [])" for u
  proof
    assume "u \<in> wl_word ` set (gs_words gs)"
    then obtain wl where "wl \<in> set (gs_words gs)" "wl_word wl = u" by auto
    with gs(2) have "0 < rows" "0 < cols" "length u \<le> rows \<or> length u \<le> cols"
      by (auto simp: placed_ok_def)
    with that show False by auto
  qed
  from this [of w] this [of "toUpperCase w"] gs(1) show ?thesis by auto
qed

theorem generate_drops_long_words_witness:
  "(1 :: nat) < length ''ab'' \<and>
   generate 1 1 (rnd_of_list []) [''ab''] = Inr \<lparr>gs_grid = [[''A'']], gs_words = []\<rparr> \<and>
   ''AB'' \<notin> wl_word ` set ([] :: WordLocation list)"
proof -
  have ev: "generate 1 1 (rnd_of_list []) [''ab''] = Inr \<lparr>gs_grid = [[''A'']], gs_words = []\<rparr>"
    by code_simp
  from generate_drops_long_words [of 1 1 "rnd_of_list []" "[''ab'']" "''ab''"]
  show ?thesis unfolding ev by simp
qed

section \<open>Properties of the solver\<close>

declare dfs.simps [simp del] search_dfs.simps [simp del]

lemma in_cells_in_bounds_iff:
  "p \<in> cells_in_bounds S \<longleftrightarrow> in_grid (solver_rows S) (solver_cols S) p"
proof
  assume "p \<in> cells_in_bounds S"
  then show "in_grid (solver_rows S) (solver_cols S) p"
    by (auto simp: cells_in_bounds_def in_grid_def)
next
  assume "in_grid (solver_rows S) (solver_cols S) p"
  then have "\<lparr>row = row p, col = col p\<rparr> \<in> cells_in_bounds S"
    by (intro in_cells_in_bounds) (simp_all add: in_grid_def)
  then show "p \<in> cells_in_bounds S" by simp
qed

lemma char_at_ok:
  "0 \<le> r \<Longrightarrow> r < int (length g) \<Longrightarrow> char_at g r c = Inr (cell_text g \<lparr>row = r, col = c\<rparr>)"
  by (simp add: char_at_def grid_read_eq cell_text_def split: option.splits)

lemma getNode_word:
  assumes "trie_of W t" and "Trie_getNode t s = Some n"
  shows "isEndOfWord n \<longleftrightarrow> toUpperCase s \<in> W"
    and "node_word n = (if toUpperCase s \<in> W then Some (toUpperCase s) else None)"
  using assms unfolding trie_of_def Trie_getNode_def by blast+

lemma getNode_prefix:
  assumes "trie_of W t" and "u \<in> W" and "prefix (toUpperCase s) u"
  shows "\<exists>n. Trie_getNode t s = Some n"
proof -
  from assms have "Trie_traverse t (toUpperCase s) \<noteq> None"
    unfolding trie_of_def by blast
  then show ?thesis by (auto simp: Trie_getNode_def)
qed

lemma is_new_word_iff:
  assumes "trie_of W t" and "Trie_getNode t s = Some n"
  shows "is_new_word n known \<longleftrightarrow> toUpperCase s \<in> W \<and> s \<noteq> [] \<and> toUpperCase s \<notin> known"
  using getNode_word [OF assms] by (auto simp: is_new_word_def)

lemma new_word_the:
  assumes "trie_of W t" and "Trie_getNode t s = Some n" and "is_new_word n known"
  shows "the (node_word n) = toUpperCase s"
  using getNode_word [OF assms(1,2)] assms(3) by (auto simp: is_new_word_def split: option.splits)

lemma visit_ok:
  assumes S: "solver_ok S W" and path: "path_ok S cw path visited"
    and adj: "path \<noteq> [] \<longrightarrow> adjacent (last path) \<lparr>row = r, col = c\<rparr>"
    and inb: "\<not> (r < 0 \<or> int (solver_rows S) \<le> r \<or> c < 0 \<or> int (solver_cols S) \<le> c)"
    and new: "\<lparr>row = r, col = c\<rparr> \<notin> visited"
  shows "char_at (solver_grid S) r c = Inr (cell_text (solver_grid S) \<lparr>row = r, col = c\<rparr>)"
    and "path_ok S (cw @ cell_text (solver_grid S) \<lparr>row = r, col = c\<rparr>)
           (path @ [\<lparr>row = r, col = c\<rparr>]) (insert \<lparr>row = r, col = c\<rparr> visited)"
proof -
  from S inb have "0 \<le> r" "r < int (length (solver_grid S))"
    by (auto simp: solver_ok_def)
  then show "char_at (solver_grid S) r c = Inr (cell_text (solver_grid S) \<lparr>row = r, col = c\<rparr>)"
    by (rule char_at_ok)
  from inb have "in_grid (solver_rows S) (solver_cols S) \<lparr>row = r, col = c\<rparr>"
    by (simp add: in_grid_def)
  with path adj new
  show "path_ok S (cw @ cell_text (solver_grid S) \<lparr>row = r, col = c\<rparr>)
           (path @ [\<lparr>row = r, col = c\<rparr>]) (insert \<lparr>row = r, col = c\<rparr> visited)"
    by (auto simp: path_ok_def successively_append_iff)
qed

lemma new_found_ok:
  assumes S: "solver_ok S W" and path: "path_ok S nw (path @ [p]) nv"
    and n: "Trie_getNode (solver_trie S) nw = Some n" and new: "is_new_word n known"
  shows "found_ok S \<lparr>fw_word = the (node_word n),
                     fw_start = (case path of [] \<Rightarrow> p | p0 # _ \<Rightarrow> p0),
                     fw_end = p, fw_path = path @ [p]\<rparr>"
    and "the (node_word n) \<in> W" and "the (node_word n) \<notin> known"
proof -
  from S have t: "trie_of W (solver_trie S)" by (simp add: solver_ok_def)
  from new_word_the [OF t n new] have w: "the (node_word n) = toUpperCase nw" .
  from is_new_word_iff [OF t n] new have nw: "toUpperCase nw \<in> W" "nw \<noteq> []" "toUpperCase nw \<notin> known"
    by simp_all
  from nw w show "the (node_word n) \<in> W" "the (node_word n) \<notin> known" by simp_all
  have "(case path of [] \<Rightarrow> p | p0 # _ \<Rightarrow> p0) = hd (path @ [p])"
    by (cases path) simp_all
  with path w nw(2)
  show "found_ok S \<lparr>fw_word = the (node_word n),
                     fw_start = (case path of [] \<Rightarrow> p | p0 # _ \<Rightarrow> p0),
                     fw_end = p, fw_path = path @ [p]\<rparr>"
    by (simp add: found_ok_def path_ok_def)
qed

lemma state_ok_add:
  assumes "state_ok S W st" and "found_ok S f" and "fw_word f \<in> W"
  shows "state_ok S W (st\<lparr>foundWords := insert (fw_word f) (foundWords st),
                           solutions := solutions st @ [f]\<rparr>)"
  using assms by (simp add: state_ok_def)

lemma direction_adjacent:
  "d \<in> set solver_DIRECTIONS \<Longrightarrow> adjacent \<lparr>row = r, col = c\<rparr> \<lparr>row = r + fst d, col = c + snd d\<rparr>"
  by (simp add: adjacent_def)

text \<open>
  Neither search throws on a solver whose \<open>rows\<close> is the length of its grid, and both keep
  the found words well formed.
\<close>

lemma dfs_sound:
  "solver_ok S W \<Longrightarrow> path_ok S cw path visited \<Longrightarrow>
   (path \<noteq> [] \<longrightarrow> adjacent (last path) \<lparr>row = r, col = c\<rparr>) \<Longrightarrow> state_ok S W st \<Longrightarrow>
   \<exists>st'. dfs S r c cw path visited st = Inr st' \<and> state_ok S W st'"
  "solver_ok S W \<Longrightarrow> path_ok S nw np nv \<Longrightarrow> np \<noteq> [] \<Longrightarrow> last np = \<lparr>row = r, col = c\<rparr> \<Longrightarrow>
   set ds \<subseteq> set solver_DIRECTIONS \<Longrightarrow> state_ok S W st \<Longrightarrow>
   \<exists>st'. dfs_dirs S r c nw np nv ds st = Inr st' \<and> state_ok S W st'"
proof (induction S r c cw path visited st and S r c nw np nv ds st rule: dfs_dfs_dirs.induct)
  case (1 S r c cw path visited st)
  let ?p = "\<lparr>row = r, col = c\<rparr>"
  show ?case
  proof (cases "(r < 0 \<or> int (solver_rows S) \<le> r \<or> c < 0 \<or> int (solver_cols S) \<le> c) \<or>
                ?p \<in> visited")
    case True
    then have "dfs S r c cw path visited st = Inr st"
      by (auto simp: dfs.simps [of S r c])
    with "1.prems" show ?thesis by simp
  next
    case False
    then have inb: "\<not> (r < 0 \<or> int (solver_rows S) \<le> r \<or> c < 0 \<or> int (solver_cols S) \<le> c)"
      and new: "?p \<notin> visited" by blast+
    let ?ch = "cell_text (solver_grid S) ?p"
    from visit_ok [OF "1.prems"(1,2,3) inb new]
    have ch: "char_at (solver_grid S) r c = Inr ?ch"
      and path': "path_ok S (cw @ ?ch) (path @ [?p]) (insert ?p visited)" .
    show ?thesis
    proof (cases "Trie_getNode (solver_trie S) (cw @ ?ch)")
      case None
      with inb new ch have "dfs S r c cw path visited st = Inr st"
        by (simp add: dfs.simps [of S r c])
      with "1.prems" show ?thesis by simp
    next
      case (Some n)
      let ?f = "\<lparr>fw_word = the (node_word n),
                 fw_start = (case path of [] \<Rightarrow> ?p | p0 # _ \<Rightarrow> p0),
                 fw_end = ?p, fw_path = path @ [?p]\<rparr>"
      let ?st1 = "if is_new_word n (foundWords st)
                  then st\<lparr>foundWords := insert (the (node_word n)) (foundWords st),
                          solutions := solutions st @ [?f]\<rparr>
                  else st"
      have st1: "state_ok S W ?st1"
      proof (cases "is_new_word n (foundWords st)")
        case True
        from new_found_ok [OF "1.prems"(1) path' Some True]
        have "found_ok S ?f" "fw_word ?f \<in> W" by simp_all
        from state_ok_add [OF "1.prems"(4) this] True show ?thesis by simp
      next
        case False
        with "1.prems"(4) show ?thesis by simp
      qed
      have eq: "dfs S r c cw path visited st =
                dfs_dirs S r c (cw @ ?ch) (path @ [?p]) (insert ?p visited) solver_DIRECTIONS ?st1"
        using inb new ch Some by (simp add: dfs.simps [of S r c])
      from "1.IH" [OF inb new ch Some "1.prems"(1) path' _ _ _ st1]
      show ?thesis unfolding eq by simp
    qed
  qed
next
  case (2 S r c nw np nv st)
  then show ?case by simp
next
  case (3 S r c nw np nv d ds st)
  from "3.prems"(5) have d: "d \<in> set solver_DIRECTIONS" and ds: "set ds \<subseteq> set solver_DIRECTIONS"
    by simp_all
  from direction_adjacent [OF d, of r c] "3.prems"(3,4)
  have "np \<noteq> [] \<longrightarrow> adjacent (last np) \<lparr>row = r + fst d, col = c + snd d\<rparr>" by simp
  from "3.IH"(1) [OF "3.prems"(1,2) this "3.prems"(6)] obtain st1 where
    st1: "dfs S (r + fst d) (c + snd d) nw np nv st = Inr st1" "state_ok S W st1"
    by blast
  from "3.IH"(2) [OF st1(1) "3.prems"(1,2,3,4) ds st1(2)] st1(1)
  show ?case by simp
qed

lemma dfs_mono:
  "dfs S r c cw path visited st = Inr st' \<Longrightarrow> foundWords st \<subseteq> foundWords st'"
  "dfs_dirs S r c nw np nv ds st = Inr st' \<Longrightarrow> foundWords st \<subseteq> foundWords st'"
proof (induction S r c cw path visited st and S r c nw np nv ds st arbitrary: st' and st'
    rule: dfs_dfs_dirs.induct)
  case (1 S r c cw path visited st)
  let ?p = "\<lparr>row = r, col = c\<rparr>"
  show ?case
  proof (cases "(r < 0 \<or> int (solver_rows S) \<le> r \<or> c < 0 \<or> int (solver_cols S) \<le> c) \<or>
                ?p \<in> visited")
    case True
    then have "dfs S r c cw path visited st = Inr st"
      by (auto simp: dfs.simps [of S r c])
    with "1.prems" show ?thesis by simp
  next
    case False
    then have inb: "\<not> (r < 0 \<or> int (solver_rows S) \<le> r \<or> c < 0 \<or> int (solver_cols S) \<le> c)"
      and new: "?p \<notin> visited" by blast+
    show ?thesis
    proof (cases "char_at (solver_grid S) r c")
      case (Inl e)
      with inb new "1.prems" show ?thesis by (simp add: dfs.simps [of S r c])
    next
      case (Inr ch)
      show ?thesis
      proof (cases "Trie_getNode (solver_trie S) (cw @ ch)")
        case None
        with inb new Inr "1.prems" show ?thesis by (simp add: dfs.simps [of S r c])
      next
        case (Some n)
        let ?st1 = "if is_new_word n (foundWords st)
                  then st\<lparr>foundWords := insert (the (node_word n)) (foundWords st),
                          solutions := solutions st @
                            [\<lparr>fw_word = the (node_word n),
                              fw_start = (case path of [] \<Rightarrow> ?p | p0 # _ \<Rightarrow> p0),
                              fw_end = ?p, fw_path = path @ [?p]\<rparr>]\<rparr>
                  else st"
        have "dfs_dirs S r c (cw @ ch) (path @ [?p]) (insert ?p visited) solver_DIRECTIONS ?st1 =
              Inr st'"
          using inb new Inr Some "1.prems" by (simp add: dfs.simps [of S r c])
        from "1.IH" [OF inb new Inr Some this] have "foundWords ?st1 \<subseteq> foundWords st'" .
        moreover have "foundWords st \<subseteq> foundWords ?st1" by auto
        ultimately show ?thesis by blast
      qed
    qed
  qed
next
  case (2 S r c nw np nv st)
  then show ?case by simp
next
  case (3 S r c nw np nv d ds st)
  from "3.prems" obtain st1 where
    st1: "dfs S (r + fst d) (c + snd d) nw np nv st = Inr st1"
         "dfs_dirs S r c nw np nv ds st1 = Inr st'"
    by (auto split: sum.splits)
  from "3.IH"(1) [OF st1(1)] "3.IH"(2) [OF st1(1) st1(2)] show ?case by blast
qed

subsection \<open>The search of findAllWords follows every path that spells a word\<close>

lemma dfs_dirs_reaches:
  assumes "d \<in> set ds"
    and "\<And>st st'. dfs S (r + fst d) (c + snd d) nw np nv st = Inr st' \<Longrightarrow> u \<in> foundWords st'"
    and "dfs_dirs S r c nw np nv ds st = Inr st'"
  shows "u \<in> foundWords st'"
  using assms(1,3)
proof (induction ds arbitrary: st)
  case Nil
  then show ?case by simp
next
  case (Cons e ds)
  from Cons.prems(2) obtain st1 where
    st1: "dfs S (r + fst e) (c + snd e) nw np nv st = Inr st1"
         "dfs_dirs S r c nw np nv ds st1 = Inr st'"
    by (auto split: sum.splits)
  show ?case
  proof (cases "e = d")
    case True
    with st1(1) assms(2) have "u \<in> foundWords st1" by blast
    with dfs_mono(2) [OF st1(2)] show ?thesis by blast
  next
    case False
    with Cons.prems(1) have "d \<in> set ds" by simp
    from Cons.IH [OF this st1(2)] show ?thesis .
  qed
qed

lemma dfs_follows_path:
  assumes S: "solver_ok S W" and u: "u \<in> W" "u \<noteq> []"
  shows "path_ok S full (pre @ rest) (set (pre @ rest)) \<Longrightarrow> toUpperCase full = u \<Longrightarrow>
         rest \<noteq> [] \<Longrightarrow> hd rest = \<lparr>row = r, col = c\<rparr> \<Longrightarrow>
         cw = concat (map (cell_text (solver_grid S)) pre) \<Longrightarrow>
         dfs S r c cw pre (set pre) st = Inr st' \<Longrightarrow> u \<in> foundWords st'"
proof (induction rest arbitrary: pre r c cw st st')
  case Nil
  then show ?case by simp
next
  case (Cons p more)
  note IH = Cons.IH and prems = Cons.prems
  let ?g = "solver_grid S"
  from Cons.prems(4) have p: "p = \<lparr>row = r, col = c\<rparr>" by simp
  from S have t: "trie_of W (solver_trie S)" by (simp add: solver_ok_def)
  from Cons.prems(1) have
    dist: "distinct (pre @ p # more)" and succ: "successively adjacent (pre @ p # more)"
    and inb_all: "list_all (in_grid (solver_rows S) (solver_cols S)) (pre @ p # more)"
    and full: "full = concat (map (cell_text ?g) (pre @ p # more))"
    by (simp_all add: path_ok_def)
  from inb_all p have inb:
    "\<not> (r < 0 \<or> int (solver_rows S) \<le> r \<or> c < 0 \<or> int (solver_cols S) \<le> c)"
    by (simp add: in_grid_def)
  from dist p have new: "\<lparr>row = r, col = c\<rparr> \<notin> set pre" by simp
  from S inb have "0 \<le> r" "r < int (length ?g)" by (auto simp: solver_ok_def)
  then have ch: "char_at ?g r c = Inr (cell_text ?g p)"
    unfolding p by (rule char_at_ok)
  let ?nw = "cw @ cell_text ?g p"
  have nw: "?nw = concat (map (cell_text ?g) (pre @ [p]))"
    using Cons.prems(5) by simp
  have full': "full = ?nw @ concat (map (cell_text ?g) more)"
    using full Cons.prems(5) by simp
  then have "prefix (toUpperCase ?nw) u"
    using Cons.prems(2) by (metis prefixI toUpperCase_append)
  from getNode_prefix [OF t u(1) this] obtain n where
    n: "Trie_getNode (solver_trie S) ?nw = Some n" ..
  let ?st1 = "if is_new_word n (foundWords st)
              then st\<lparr>foundWords := insert (the (node_word n)) (foundWords st),
                      solutions := solutions st @
                        [\<lparr>fw_word = the (node_word n),
                          fw_start = (case pre of [] \<Rightarrow> \<lparr>row = r, col = c\<rparr> | p0 # _ \<Rightarrow> p0),
                          fw_end = \<lparr>row = r, col = c\<rparr>,
                          fw_path = pre @ [\<lparr>row = r, col = c\<rparr>]\<rparr>]\<rparr>
              else st"
  have dirs: "dfs_dirs S r c ?nw (pre @ [p]) (insert p (set pre)) solver_DIRECTIONS ?st1 = Inr st'"
    using Cons.prems(6) inb new ch n unfolding p by (simp add: dfs.simps [of S r c])
  show ?case
  proof (cases more)
    case Nil
    with full' Cons.prems(2) have up: "toUpperCase ?nw = u" by simp
    with u(2) have "?nw \<noteq> []" by auto
    with is_new_word_iff [OF t n, of "foundWords st"] up u(1)
    have new_iff: "is_new_word n (foundWords st) \<longleftrightarrow> u \<notin> foundWords st" by simp
    have "u \<in> foundWords ?st1"
    proof (cases "is_new_word n (foundWords st)")
      case True
      from new_word_the [OF t n True] up show ?thesis using True by simp
    next
      case False
      with new_iff show ?thesis by simp
    qed
    with dfs_mono(2) [OF dirs] show ?thesis by blast
  next
    case (Cons q more')
    let ?d = "(row q - row p, col q - col p)"
    from succ Cons have "adjacent p q"
      by (simp add: successively_append_iff)
    then have d: "?d \<in> set solver_DIRECTIONS" by (simp add: adjacent_def)
    have q: "\<lparr>row = r + fst ?d, col = c + snd ?d\<rparr> = q"
      unfolding p by simp
    have reach: "u \<in> foundWords st3"
      if "dfs S (r + fst ?d) (c + snd ?d) ?nw (pre @ [p]) (insert p (set pre)) st2 = Inr st3"
      for st2 st3
    proof -
      have 1: "path_ok S full ((pre @ [p]) @ more) (set ((pre @ [p]) @ more))"
        using prems(1) by simp
      have 2: "hd more = \<lparr>row = r + fst ?d, col = c + snd ?d\<rparr>"
        using q Cons by simp
      have 3: "more \<noteq> []" using Cons by simp
      have 4: "insert p (set pre) = set (pre @ [p])" by simp
      from that have "dfs S (r + fst ?d) (c + snd ?d) ?nw (pre @ [p]) (set (pre @ [p])) st2 =
                      Inr st3"
        unfolding 4 .
      from IH [OF 1 prems(2) 3 2 nw this] show ?thesis .
    qed
    from dfs_dirs_reaches [OF d reach dirs] show ?thesis .
  qed
qed

lemma findAllWords_loop_ok:
  assumes "solver_ok S W" and "state_ok S W st"
  shows "\<exists>st'. findAllWords_loop S ps st = Inr st' \<and> state_ok S W st' \<and>
           foundWords st \<subseteq> foundWords st'"
  using assms(2)
proof (induction ps arbitrary: st)
  case Nil
  then show ?case by simp
next
  case (Cons p ps)
  have "path_ok S [] [] {}" by (simp add: path_ok_def)
  from dfs_sound(1) [OF assms(1) this _ Cons.prems, of "row p" "col p"] obtain st1 where
    st1: "dfs S (row p) (col p) [] [] {} st = Inr st1" "state_ok S W st1"
    by auto
  from Cons.IH [OF st1(2)] obtain st' where
    st': "findAllWords_loop S ps st1 = Inr st'" "state_ok S W st'"
         "foundWords st1 \<subseteq> foundWords st'"
    by blast
  from dfs_mono(1) [OF st1(1)] st'(3) have "foundWords st \<subseteq> foundWords st'" by blast
  with st1(1) st'(1,2) show ?case by simp
qed

lemma findAllWords_loop_reaches:
  assumes S: "solver_ok S W"
    and reach: "\<And>st st'. dfs S (row p) (col p) [] [] {} st = Inr st' \<Longrightarrow> u \<in> foundWords st'"
  shows "p \<in> set ps \<Longrightarrow> state_ok S W st \<Longrightarrow> findAllWords_loop S ps st = Inr st' \<Longrightarrow>
         u \<in> foundWords st'"
proof (induction ps arbitrary: st)
  case Nil
  then show ?case by simp
next
  case (Cons q ps)
  have "path_ok S [] [] {}" by (simp add: path_ok_def)
  from dfs_sound(1) [OF S this _ Cons.prems(2), of "row q" "col q"] obtain st1 where
    st1: "dfs S (row q) (col q) [] [] {} st = Inr st1" "state_ok S W st1"
    by auto
  with Cons.prems(3) have rest: "findAllWords_loop S ps st1 = Inr st'" by simp
  show ?case
  proof (cases "q = p")
    case True
    with st1(1) reach have "u \<in> foundWords st1" by blast
    moreover from findAllWords_loop_ok [OF S st1(2), of ps] rest
    have "foundWords st1 \<subseteq> foundWords st'" by auto
    ultimately show ?thesis by blast
  next
    case False
    with Cons.prems(1) have "p \<in> set ps" by simp
    from Cons.IH [OF this st1(2) rest] show ?thesis .
  qed
qed

lemma in_all_positions:
  assumes "in_grid (solver_rows S) (solver_cols S) p"
  shows "p \<in> set (all_positions S)"
proof -
  let ?r = "nat (row p)" and ?c = "nat (col p)"
  from assms have r: "?r \<in> set [0..<solver_rows S]" and c: "?c \<in> set [0..<solver_cols S]"
    and p: "p = \<lparr>row = int ?r, col = int ?c\<rparr>"
    by (auto simp: in_grid_def)
  from c have "(\<lambda>c. \<lparr>row = int ?r, col = int c\<rparr>) ?c \<in>
      set (map (\<lambda>c. \<lparr>row = int ?r, col = int c\<rparr>) [0..<solver_cols S])"
    unfolding set_map by (rule imageI)
  with p have "p \<in> set (map (\<lambda>c. \<lparr>row = int ?r, col = int c\<rparr>) [0..<solver_cols S])"
    by simp
  moreover from r have "map (\<lambda>c. \<lparr>row = int ?r, col = int c\<rparr>) [0..<solver_cols S] \<in>
      set (map (\<lambda>r. map (\<lambda>c. \<lparr>row = int r, col = int c\<rparr>) [0..<solver_cols S])
               [0..<solver_rows S])"
    unfolding set_map by (rule imageI)
  ultimately show ?thesis
    unfolding all_positions_def set_concat by (rule UN_I [rotated])
qed

text \<open>
  \<open>findAllWords\<close> returns well-formed found words, and among them one for every word of
  the list that some path of the grid spells.
\<close>

lemma findAllWords_ok:
  assumes S: "solver_ok S W"
  shows "\<exists>found. findAllWords S = Inr found \<and>
           list_all (\<lambda>f. found_ok S f \<and> fw_word f \<in> W) found \<and>
           (\<forall>ps full. ps \<noteq> [] \<longrightarrow> path_ok S full ps (set ps) \<longrightarrow> toUpperCase full \<in> W \<longrightarrow>
              full \<noteq> [] \<longrightarrow> toUpperCase full \<in> fw_word ` set found)"
proof -
  let ?st0 = "\<lparr>foundWords = {}, solutions = []\<rparr>"
  have st0: "state_ok S W ?st0" by (simp add: state_ok_def)
  from findAllWords_loop_ok [OF S st0, of "all_positions S"] obtain st' where
    st': "findAllWords_loop S (all_positions S) ?st0 = Inr st'" "state_ok S W st'"
    by blast
  then have res: "findAllWords S = Inr (solutions st')"
    by (simp add: findAllWords_def)
  have "toUpperCase full \<in> fw_word ` set (solutions st')"
    if ps: "ps \<noteq> []" "path_ok S full ps (set ps)" and u: "toUpperCase full \<in> W" "full \<noteq> []"
    for ps full
  proof -
    let ?p = "hd ps"
    from ps have inb: "in_grid (solver_rows S) (solver_cols S) ?p"
      by (cases ps) (simp_all add: path_ok_def)
    have reach: "toUpperCase full \<in> foundWords st2"
      if "dfs S (row ?p) (col ?p) [] [] {} st1 = Inr st2" for st1 st2
    proof -
      have 1: "path_ok S full ([] @ ps) (set ([] @ ps))" using ps(2) by simp
      have 2: "hd ps = \<lparr>row = row ?p, col = col ?p\<rparr>" by simp
      from u(2) have 3: "toUpperCase full \<noteq> []" by simp
      from dfs_follows_path [OF S u(1) 3 1 refl ps(1) 2, of "[]" st1 st2] that
      show ?thesis by simp
    qed
    from findAllWords_loop_reaches [OF S reach in_all_positions [OF inb] st0 st'(1)]
    have "toUpperCase full \<in> foundWords st'" .
    with st'(2) show ?thesis by (simp add: state_ok_def)
  qed
  with res st'(2) show ?thesis by (auto simp: state_ok_def)
qed

lemma solver_ok_new: "solver_ok (new_WordSearchSolver g ws) (toUpperCase ` set ws)"
  by (simp add: solver_ok_def new_WordSearchSolver_def trie_of_fromWords)

subsection \<open>A straight line is a path of the search\<close>

lemma sgn_pair_direction:
  "dr \<noteq> 0 \<or> dc \<noteq> 0 \<Longrightarrow> (sgn dr, sgn dc) \<in> set solver_DIRECTIONS" for dr dc :: int
  by (auto simp: solver_DIRECTIONS_def sgn_if)

lemma line_points_path:
  shows "distinct (line_points s e)" and "successively adjacent (line_points s e)"
proof -
  define dr dc where "dr = row e - row s" and "dc = col e - col s"
  define f where "f = (\<lambda>i. \<lparr>row = row s + int i * sgn dr, col = col s + int i * sgn dc\<rparr>)"
  define n where "n = nat (max \<bar>dr\<bar> \<bar>dc\<bar>)"
  have lp: "line_points s e = map f [0..<Suc n]"
    by (simp add: line_points_def Let_def dr_def dc_def f_def n_def)
  show "distinct (line_points s e)"
  proof (cases "dr = 0 \<and> dc = 0")
    case True
    then show ?thesis unfolding lp by (simp add: n_def)
  next
    case False
    have "inj f"
    proof (rule injI)
      fix i j assume "f i = f j"
      then have "int i * sgn dr = int j * sgn dr" "int i * sgn dc = int j * sgn dc"
        by (simp_all add: f_def)
      with False show "i = j" by (auto simp: sgn_if split: if_splits)
    qed
    then have "inj_on f (set [0..<Suc n])" by (simp add: inj_on_def)
    then show ?thesis unfolding lp by (simp add: distinct_map del: upt_Suc)
  qed
  show "successively adjacent (line_points s e)"
  proof (cases "dr = 0 \<and> dc = 0")
    case True
    then show ?thesis unfolding lp by (simp add: n_def)
  next
    case False
    then have "(sgn dr, sgn dc) \<in> set solver_DIRECTIONS"
      by (intro sgn_pair_direction) blast
    then have "adjacent (f i) (f (Suc i))" for i
      by (simp add: adjacent_def f_def algebra_simps)
    then show ?thesis
      unfolding lp successively_conv_nth by (simp add: nth_map_upt del: upt_Suc)
  qed
qed

lemma concat_singletons: "concat (map (\<lambda>ch. [ch]) w) = w"
  by (induction w) simp_all

lemma line_spells_path_ok:
  assumes g: "rect (solver_rows S) (solver_cols S) (solver_grid S)"
    and l: "line_spells (solver_grid S) s e w"
  shows "path_ok S w (line_points s e) (set (line_points s e))"
proof -
  let ?ps = "line_points s e"
  from l have eq: "map (grid_at (solver_grid S)) ?ps = map (\<lambda>ch. Some [ch]) w"
    by (simp add: line_spells_def)
  then have len: "length ?ps = length w" by (metis length_map)
  have at: "grid_at (solver_grid S) (?ps ! i) = Some [w ! i]" if "i < length w" for i
    using line_spells_nth [OF l that] .
  have "in_grid (solver_rows S) (solver_cols S) p" if "p \<in> set ?ps" for p
  proof -
    from that len obtain i where "i < length w" "p = ?ps ! i"
      by (auto simp: in_set_conv_nth)
    with at have "grid_at (solver_grid S) p \<noteq> None" by simp
    then show ?thesis by (simp add: grid_at_rect [OF g] split: if_splits)
  qed
  then have inb: "list_all (in_grid (solver_rows S) (solver_cols S)) ?ps"
    by (simp add: list_all_iff)
  have "map (cell_text (solver_grid S)) ?ps = map (\<lambda>ch. [ch]) w"
    using len at by (intro nth_equalityI) (simp_all add: cell_text_def)
  then have "concat (map (cell_text (solver_grid S)) ?ps) = w"
    by (simp add: concat_singletons)
  with inb line_points_path [of s e] show ?thesis
    by (simp add: path_ok_def)
qed

lemma line_points_not_Nil: "line_points s e \<noteq> []"
  by (simp add: line_points_def Let_def del: upt_Suc)

subsection \<open>The bounded search\<close>

lemma search_dfs_ok:
  "solver_ok S W \<Longrightarrow> path_ok S cw path visited \<Longrightarrow>
   (path \<noteq> [] \<longrightarrow> adjacent (last path) \<lparr>row = r, col = c\<rparr>) \<Longrightarrow> found_inv S W ex (snd st) \<Longrightarrow>
   \<exists>b a f. search_dfs S ex m r c cw path visited st = Inr (b, a, f) \<and>
     found_inv S W ex f \<and> fst st \<le> a \<and> a \<le> max (fst st) m"
  "solver_ok S W \<Longrightarrow> path_ok S nw np nv \<Longrightarrow> np \<noteq> [] \<Longrightarrow> last np = \<lparr>row = r, col = c\<rparr> \<Longrightarrow>
   set ds \<subseteq> set solver_DIRECTIONS \<Longrightarrow> found_inv S W ex (snd st) \<Longrightarrow>
   \<exists>b a f. search_dfs_dirs S ex m r c nw np nv ds st = Inr (b, a, f) \<and>
     found_inv S W ex f \<and> fst st \<le> a \<and> a \<le> max (fst st) m"
proof (induction S ex m r c cw path visited st and S ex m r c nw np nv ds st
    rule: search_dfs_search_dfs_dirs.induct)
  case (1 S ex m r c cw path visited st)
  let ?p = "\<lparr>row = r, col = c\<rparr>"
  let ?out = "r < 0 \<or> int (solver_rows S) \<le> r \<or> c < 0 \<or> int (solver_cols S) \<le> c"
  show ?case
  proof (cases "m \<le> fst st")
    case True
    then have "search_dfs S ex m r c cw path visited st = Inr (False, fst st, snd st)"
      by (simp add: search_dfs.simps [of S ex m r c])
    moreover have "fst st \<le> max (fst st) m" by simp
    ultimately show ?thesis using "1.prems"(4) by blast
  next
    case budget: False
    show ?thesis
    proof (cases "?out \<or> ?p \<in> visited")
      case True
      with budget have "search_dfs S ex m r c cw path visited st = Inr (False, fst st + 1, snd st)"
        by (auto simp: search_dfs.simps [of S ex m r c])
      with "1.prems"(4) budget show ?thesis by auto
    next
      case False
      then have inb: "\<not> ?out" and new: "?p \<notin> visited" by blast+
      let ?ch = "cell_text (solver_grid S) ?p"
      from visit_ok [OF "1.prems"(1,2,3) inb new]
      have ch: "char_at (solver_grid S) r c = Inr ?ch"
        and path': "path_ok S (cw @ ?ch) (path @ [?p]) (insert ?p visited)" .
      show ?thesis
      proof (cases "Trie_getNode (solver_trie S) (cw @ ?ch)")
        case None
        with budget inb new ch
        have "search_dfs S ex m r c cw path visited st = Inr (False, fst st + 1, snd st)"
          by (simp add: search_dfs.simps [of S ex m r c])
        with "1.prems"(4) budget show ?thesis by auto
      next
        case (Some n)
        show ?thesis
        proof (cases "is_new_word n ex")
          case True
          let ?f = "\<lparr>fw_word = the (node_word n),
                     fw_start = (case path of [] \<Rightarrow> ?p | p0 # _ \<Rightarrow> p0),
                     fw_end = ?p, fw_path = path @ [?p]\<rparr>"
          from new_found_ok [OF "1.prems"(1) path' Some True]
          have "found_inv S W ex (Some ?f)" by (simp add: found_inv_def)
          moreover have "search_dfs S ex m r c cw path visited st = Inr (True, fst st + 1, Some ?f)"
            using budget inb new ch Some True by (simp add: search_dfs.simps [of S ex m r c])
          ultimately show ?thesis using budget by auto
        next
          case False
          have eq: "search_dfs S ex m r c cw path visited st =
                    search_dfs_dirs S ex m r c (cw @ ?ch) (path @ [?p]) (insert ?p visited)
                      solver_DIRECTIONS (fst st + 1, snd st)"
            using budget inb new ch Some False by (simp add: search_dfs.simps [of S ex m r c])
          from "1.IH" [OF budget inb new ch Some False "1.prems"(1) path'] "1.prems"(4)
          obtain b a f where
            r: "search_dfs_dirs S ex m r c (cw @ ?ch) (path @ [?p]) (insert ?p visited)
                  solver_DIRECTIONS (fst st + 1, snd st) = Inr (b, a, f)"
               "found_inv S W ex f" "fst st + 1 \<le> a" "a \<le> max (fst st + 1) m"
            by auto
          with budget show ?thesis unfolding eq by auto
        qed
      qed
    qed
  qed
next
  case (2 S ex m r c nw np nv st)
  then show ?case by (cases st) auto
next
  case (3 S ex m r c nw np nv d ds st)
  from "3.prems"(5) have d: "d \<in> set solver_DIRECTIONS" and ds: "set ds \<subseteq> set solver_DIRECTIONS"
    by simp_all
  from direction_adjacent [OF d, of r c] "3.prems"(3,4)
  have "np \<noteq> [] \<longrightarrow> adjacent (last np) \<lparr>row = r + fst d, col = c + snd d\<rparr>" by simp
  from "3.IH"(1) [OF "3.prems"(1,2) this "3.prems"(6)] obtain b a f where
    r1: "search_dfs S ex m (r + fst d) (c + snd d) nw np nv st = Inr (b, a, f)"
        "found_inv S W ex f" "fst st \<le> a" "a \<le> max (fst st) m"
    by blast
  show ?case
  proof (cases b)
    case True
    with r1 show ?thesis by auto
  next
    case False
    then have bF: "b = False" by simp
    from "3.IH"(2) [OF r1(1) refl bF "3.prems"(1,2,3,4) ds] r1(2) obtain b' a' f' where
      r2: "search_dfs_dirs S ex m r c nw np nv ds (a, f) = Inr (b', a', f')"
          "found_inv S W ex f'" "a \<le> a'" "a' \<le> max a m"
      by auto
    with r1 False show ?thesis by auto
  qed
qed

lemma searchFromCell_ok:
  assumes "solver_ok S W"
  shows "\<exists>found n. searchFromCell S r c ex m = Inr (found, n) \<and> found_inv S W ex found \<and>
           0 \<le> n \<and> n \<le> max 0 m"
proof -
  have "path_ok S [] [] {}" by (simp add: path_ok_def)
  from search_dfs_ok(1) [OF assms this, of r c ex "(0, None)" m] obtain b a f where
    "search_dfs S ex m r c [] [] {} (0, None) = Inr (b, a, f)" "found_inv S W ex f"
    "0 \<le> a" "a \<le> max 0 m"
    by (auto simp: found_inv_def)
  then show ?thesis by (simp add: searchFromCell_def)
qed

lemma findNextWord_loop_ok:
  assumes "solver_ok S W"
  shows "\<exists>found a'. findNextWord_loop S ex m a ps = Inr (found, a') \<and> found_inv S W ex found \<and>
           a \<le> a' \<and> a' \<le> max a m \<and> (m \<le> a \<longrightarrow> found = None \<and> a' = a)"
proof (induction ps arbitrary: a)
  case Nil
  show ?case by (simp add: found_inv_def)
next
  case (Cons p ps)
  show ?case
  proof (cases "m \<le> a")
    case True
    then show ?thesis by (simp add: found_inv_def)
  next
    case False
    from searchFromCell_ok [OF assms, of "row p" "col p" ex "m - a"] obtain found n where
      s: "searchFromCell S (row p) (col p) ex (m - a) = Inr (found, n)" "found_inv S W ex found"
         "0 \<le> n" "n \<le> max 0 (m - a)"
      by blast
    from Cons.IH [of "a + n"] obtain found' a' where
      r: "findNextWord_loop S ex m (a + n) ps = Inr (found', a')" "found_inv S W ex found'"
         "a + n \<le> a'" "a' \<le> max (a + n) m"
      by blast
    show ?thesis
    proof (cases "\<exists>f. found = Some f \<and> fw_word f \<notin> ex")
      case True
      then obtain f where "found = Some f" "fw_word f \<notin> ex" by blast
      with False s show ?thesis by simp
    next
      case no: False
      then have "findNextWord_loop S ex m a (p # ps) = findNextWord_loop S ex m (a + n) ps"
        using False s(1) by (auto split: option.splits)
      with r s(3,4) False show ?thesis by auto
    qed
  qed
qed

lemma all_positions_no_cols: "solver_cols S = 0 \<Longrightarrow> all_positions S = []"
  by (simp add: all_positions_def)

lemma all_positions_no_rows: "solver_rows S = 0 \<Longrightarrow> all_positions S = []"
  by (simp add: all_positions_def)

section \<open>Claims about the solver\<close>

text \<open>
  C2. As stated the claim fails for the empty word, which the generator can place
  (see C1) and which the solver never reports: every string the search looks up has at
  least the text of one cell, and the test \<open>trieNode.word &&\<close> is false for the empty
  string. On the grid of the counterexample of C1 the solver finds nothing.
\<close>

theorem findAllWords_misses_empty_word_counterexample:
  "generate 1 2 (rnd_of_list [0, 0, 1]) [''''] =
     Inr \<lparr>gs_grid = [[''A'', ''A'']],
          gs_words = [\<lparr>wl_word = '''', wl_start = \<lparr>row = 0, col = 1\<rparr>,
                       wl_end = \<lparr>row = 0, col = 1\<rparr>\<rparr>]\<rparr> \<and>
   findAllWords (new_WordSearchSolver [[''A'', ''A'']] ['''']) = Inr []"
  by code_simp

text \<open>
  C2, amended. For every list \<open>W\<close> of words of ASCII characters, all grid dimensions and
  random draws, every word placed by the generator that is not the empty string is found
  by the solver built over the generated grid and the same \<open>W\<close>: \<open>findAllWords\<close> returns
  a found word with that word; and every found word it returns is the uppercase of some
  member of \<open>W\<close>. Nothing is said of words with other characters, which the generator
  lays out by UTF-16 code unit and the trie indexes by code point.
\<close>

theorem solver_finds_placed_words:
  assumes "list_all is_ascii ws"
  shows "\<exists>gs found. generate rows cols rnd ws = Inr gs \<and>
     findAllWords (new_WordSearchSolver (gs_grid gs) ws) = Inr found \<and>
     (\<forall>wl\<in>set (gs_words gs). wl_word wl \<noteq> [] \<longrightarrow> wl_word wl \<in> fw_word ` set found) \<and>
     (\<forall>f\<in>set found. fw_word f \<in> toUpperCase ` set ws)"
proof -
  let ?W = "toUpperCase ` set ws"
  from generate_ok [of rows cols rnd ws] obtain gs where
    "generate rows cols rnd ws = Inr gs \<and> rect rows cols (gs_grid gs) \<and>
     (\<forall>wl\<in>set (gs_words gs). placed_ok rows cols (gs_grid gs) wl \<and> wl_word wl \<in> ?W) \<and>
     (\<forall>p. in_grid rows cols p \<longrightarrow>
        (\<exists>ch\<in>set letters \<union> \<Union>(set ` ?W). grid_at (gs_grid gs) p = Some [ch]))" ..
  then have gs: "generate rows cols rnd ws = Inr gs" "rect rows cols (gs_grid gs)"
    "\<forall>wl\<in>set (gs_words gs). placed_ok rows cols (gs_grid gs) wl \<and> wl_word wl \<in> ?W"
    by simp_all
  let ?S = "new_WordSearchSolver (gs_grid gs) ws"
  from findAllWords_ok [OF solver_ok_new, of "gs_grid gs" ws] obtain found where
    "findAllWords ?S = Inr found \<and>
     list_all (\<lambda>f. found_ok ?S f \<and> fw_word f \<in> ?W) found \<and>
     (\<forall>ps full. ps \<noteq> [] \<longrightarrow> path_ok ?S full ps (set ps) \<longrightarrow> toUpperCase full \<in> ?W \<longrightarrow>
        full \<noteq> [] \<longrightarrow> toUpperCase full \<in> fw_word ` set found)" ..
  then have found: "findAllWords ?S = Inr found"
    "list_all (\<lambda>f. found_ok ?S f \<and> fw_word f \<in> ?W) found"
    "\<And>ps full. ps \<noteq> [] \<Longrightarrow> path_ok ?S full ps (set ps) \<Longrightarrow> toUpperCase full \<in> ?W \<Longrightarrow>
        full \<noteq> [] \<Longrightarrow> toUpperCase full \<in> fw_word ` set found"
    by simp_all
  have "wl_word wl \<in> fw_word ` set found"
    if wl: "wl \<in> set (gs_words gs)" "wl_word wl \<noteq> []" for wl
  proof -
    from gs(3) wl have ok: "placed_ok rows cols (gs_grid gs) wl" and W: "wl_word wl \<in> ?W"
      by simp_all
    from ok wl(2) have pos: "0 < rows"
      and l: "line_spells (gs_grid gs) (wl_start wl) (wl_end wl) (wl_word wl)"
      by (simp_all add: placed_ok_def)
    from gs(2) pos have "solver_rows ?S = rows" "solver_cols ?S = cols" "solver_grid ?S = gs_grid gs"
      by (cases "gs_grid gs"; simp add: new_WordSearchSolver_def rect_def)+
    with gs(2) l have "rect (solver_rows ?S) (solver_cols ?S) (solver_grid ?S)"
      "line_spells (solver_grid ?S) (wl_start wl) (wl_end wl) (wl_word wl)" by simp_all
    from line_spells_path_ok [OF this]
    have p: "path_ok ?S (wl_word wl) (line_points (wl_start wl) (wl_end wl))
               (set (line_points (wl_start wl) (wl_end wl)))" .
    from W have up: "toUpperCase (wl_word wl) = wl_word wl" by auto
    from found(3) [OF line_points_not_Nil p _ wl(2)] W up show ?thesis by simp
  qed
  moreover have "fw_word f \<in> ?W" if "f \<in> set found" for f
    using found(2) that by (simp add: list_all_iff)
  ultimately show ?thesis using gs(1) found(1) by blast
qed

theorem solver_finds_placed_words_witness:
  "list_all is_ascii [''cat''] \<and>
   generate 1 3 (rnd_of_list []) [''cat''] =
     Inr \<lparr>gs_grid = [[''C'', ''A'', ''T'']],
          gs_words = [\<lparr>wl_word = ''CAT'', wl_start = \<lparr>row = 0, col = 0\<rparr>,
                       wl_end = \<lparr>row = 0, col = 2\<rparr>\<rparr>]\<rparr> \<and>
   ''CAT'' \<noteq> [] \<and>
   findAllWords (new_WordSearchSolver [[''C'', ''A'', ''T'']] [''cat'']) =
     Inr [\<lparr>fw_word = ''CAT'', fw_start = \<lparr>row = 0, col = 0\<rparr>, fw_end = \<lparr>row = 0, col = 2\<rparr>,
           fw_path = [\<lparr>row = 0, col = 0\<rparr>, \<lparr>row = 0, col = 1\<rparr>, \<lparr>row = 0, col = 2\<rparr>]\<rparr>] \<and>
   ''CAT'' \<in> fw_word `
     set [\<lparr>fw_word = ''CAT'', fw_start = \<lparr>row = 0, col = 0\<rparr>, fw_end = \<lparr>row = 0, col = 2\<rparr>,
           fw_path = [\<lparr>row = 0, col = 0\<rparr>, \<lparr>row = 0, col = 1\<rparr>, \<lparr>row = 0, col = 2\<rparr>]\<rparr>]"
proof -
  let ?G = "\<lparr>gs_grid = [[''C'', ''A'', ''T'']],
          gs_words = [\<lparr>wl_word = ''CAT'', wl_start = \<lparr>row = 0, col = 0\<rparr>,
                       wl_end = \<lparr>row = 0, col = 2\<rparr>\<rparr>]\<rparr>"
  let ?F = "[\<lparr>fw_word = ''CAT'', fw_start = \<lparr>row = 0, col = 0\<rparr>, fw_end = \<lparr>row = 0, col = 2\<rparr>,
           fw_path = [\<lparr>row = 0, col = 0\<rparr>, \<lparr>row = 0, col = 1\<rparr>, \<lparr>row = 0, col = 2\<rparr>]\<rparr>]"
  have h: "list_all is_ascii [''cat'']"
    by code_simp
  have ev: "generate 1 3 (rnd_of_list []) [''cat''] = Inr ?G"
    by code_simp
  have ev2: "findAllWords (new_WordSearchSolver [[''C'', ''A'', ''T'']] [''cat'']) = Inr ?F"
    by code_simp
  from solver_finds_placed_words [OF h, of 1 3 "rnd_of_list []"] obtain gs found where
    r: "generate 1 3 (rnd_of_list []) [''cat''] = Inr gs"
       "findAllWords (new_WordSearchSolver (gs_grid gs) [''cat'']) = Inr found"
       "\<forall>wl\<in>set (gs_words gs). wl_word wl \<noteq> [] \<longrightarrow> wl_word wl \<in> fw_word ` set found"
    by blast
  from r(1) have gs: "gs = ?G" unfolding ev by simp
  from r(2) have "findAllWords (new_WordSearchSolver [[''C'', ''A'', ''T'']] [''cat'']) = Inr found"
    unfolding gs by simp
  then have "found = ?F" unfolding ev2 by simp
  with r(3) gs have "''CAT'' \<in> fw_word ` set ?F" by simp
  with h ev ev2 show ?thesis by simp
qed

lemma in_bounds_on_grid:
  assumes "rect (length g) n g"
    and "in_grid (solver_rows (new_WordSearchSolver g ws)) (solver_cols (new_WordSearchSolver g ws)) p"
  shows "grid_at g p \<noteq> None"
proof -
  from assms(2) have r: "0 \<le> row p" "row p < int (length g)"
    and c: "0 \<le> col p" "col p < int (solver_cols (new_WordSearchSolver g ws))"
    by (simp_all add: in_grid_def new_WordSearchSolver_def)
  from r obtain r0 rest where g: "g = r0 # rest" by (cases g) auto
  with assms(1) have "length r0 = n" by (simp add: rect_def)
  with c g have "col p < int n" by (simp add: new_WordSearchSolver_def)
  with r c have "in_grid (length g) n p" by (simp add: in_grid_def)
  then show ?thesis by (simp add: grid_at_rect [OF assms(1)])
qed

lemma found_ok_on_grid:
  assumes "rect (length g) n g" and "found_ok (new_WordSearchSolver g ws) f"
  shows "on_grid g f"
  using assms(2) in_bounds_on_grid [OF assms(1), of ws]
  by (simp add: found_ok_def on_grid_def list_all_iff)

text \<open>
  C3. As stated the claim fails: at every step the search moves on in any of the eight
  directions, so the path of a found word may bend. On the grid with the rows CA and XT
  the word CAT is found along (0,0), (0,1), (1,1); its start and end are the ends of a
  diagonal of two cells, which reads CT.
\<close>

theorem findAllWords_bent_path_counterexample:
  "findAllWords (new_WordSearchSolver [[''C'', ''A''], [''X'', ''T'']] [''CAT'']) =
     Inr [\<lparr>fw_word = ''CAT'', fw_start = \<lparr>row = 0, col = 0\<rparr>, fw_end = \<lparr>row = 1, col = 1\<rparr>,
           fw_path = [\<lparr>row = 0, col = 0\<rparr>, \<lparr>row = 0, col = 1\<rparr>, \<lparr>row = 1, col = 1\<rparr>]\<rparr>] \<and>
   \<not> line_spells [[''C'', ''A''], [''X'', ''T'']] \<lparr>row = 0, col = 0\<rparr> \<lparr>row = 1, col = 1\<rparr> ''CAT''"
  by code_simp

text \<open>
  C3, amended. Neither \<open>findAllWords\<close> nor \<open>findNextWord\<close> throws, on any grid, and every
  found word they produce satisfies \<open>found_ok\<close>: its path is not empty, \<open>start\<close> is the
  first and \<open>end\<close> the last position of the path, the path visits no position twice,
  steps from each position to one of its eight neighbours (horizontally, vertically or
  diagonally, so it may bend) and stays inside the bounds the solver keeps, which are the
  rows of the grid and the columns of its first row; the word is not empty and is the
  uppercase of the texts of the positions of the path, read from start to end, where the
  text of a position is the string of its cell, or the text \<open>undefined\<close> where its row
  is shorter than the first row. On a rectangular grid (every row has the same length
  \<open>n\<close>) every position of the path is a cell of the grid, so the word is spelled by the
  cells along the path.
\<close>

theorem found_words_well_formed:
  "\<exists>found res.
     findAllWords (new_WordSearchSolver g ws) = Inr found \<and>
     findNextWord (new_WordSearchSolver g ws) rnd alreadyFound maxAttempts = Inr res \<and>
     list_all (found_ok (new_WordSearchSolver g ws)) found \<and>
     (case res of None \<Rightarrow> True | Some f \<Rightarrow> found_ok (new_WordSearchSolver g ws) f) \<and>
     (rect (length g) n g \<longrightarrow>
        list_all (on_grid g) found \<and> (case res of None \<Rightarrow> True | Some f \<Rightarrow> on_grid g f))"
proof -
  let ?S = "new_WordSearchSolver g ws" and ?W = "toUpperCase ` set ws"
  from findAllWords_ok [OF solver_ok_new, of g ws] obtain found where
    "findAllWords ?S = Inr found \<and>
     list_all (\<lambda>f. found_ok ?S f \<and> fw_word f \<in> ?W) found \<and>
     (\<forall>ps full. ps \<noteq> [] \<longrightarrow> path_ok ?S full ps (set ps) \<longrightarrow> toUpperCase full \<in> ?W \<longrightarrow>
        full \<noteq> [] \<longrightarrow> toUpperCase full \<in> fw_word ` set found)" ..
  then have found: "findAllWords ?S = Inr found" "list_all (found_ok ?S) found"
    by (simp_all add: list_all_iff)
  from findNextWord_loop_ok [OF solver_ok_new, of g ws "set alreadyFound" maxAttempts 0
      "getShuffledPositions ?S rnd"]
  obtain res a where
    "findNextWord_attempts ?S rnd alreadyFound maxAttempts = Inr (res, a)"
    "found_inv ?S ?W (set alreadyFound) res"
    unfolding findNextWord_attempts_def by blast
  then have res: "findNextWord ?S rnd alreadyFound maxAttempts = Inr res"
    "case res of None \<Rightarrow> True | Some f \<Rightarrow> found_ok ?S f"
    by (simp_all add: findNextWord_def found_inv_def split: option.splits)
  have "list_all (on_grid g) found \<and> (case res of None \<Rightarrow> True | Some f \<Rightarrow> on_grid g f)"
    if r: "rect (length g) n g"
  proof -
    from found(2) have "list_all (on_grid g) found"
      using found_ok_on_grid [OF r, of ws] by (auto simp: list_all_iff)
    moreover from res(2) have "case res of None \<Rightarrow> True | Some f \<Rightarrow> on_grid g f"
      using found_ok_on_grid [OF r, of ws] by (auto split: option.splits)
    ultimately show ?thesis ..
  qed
  with found res show ?thesis by blast
qed

theorem found_words_well_formed_witness:
  "rect (length [[''C'', ''A''], [''X'', ''T'']]) 2 [[''C'', ''A''], [''X'', ''T'']] \<and>
   findAllWords (new_WordSearchSolver [[''C'', ''A''], [''X'', ''T'']] [''CAT'']) =
     Inr [\<lparr>fw_word = ''CAT'', fw_start = \<lparr>row = 0, col = 0\<rparr>, fw_end = \<lparr>row = 1, col = 1\<rparr>,
           fw_path = [\<lparr>row = 0, col = 0\<rparr>, \<lparr>row = 0, col = 1\<rparr>, \<lparr>row = 1, col = 1\<rparr>]\<rparr>] \<and>
   found_ok (new_WordSearchSolver [[''C'', ''A''], [''X'', ''T'']] [''CAT''])
     \<lparr>fw_word = ''CAT'', fw_start = \<lparr>row = 0, col = 0\<rparr>, fw_end = \<lparr>row = 1, col = 1\<rparr>,
      fw_path = [\<lparr>row = 0, col = 0\<rparr>, \<lparr>row = 0, col = 1\<rparr>, \<lparr>row = 1, col = 1\<rparr>]\<rparr> \<and>
   on_grid [[''C'', ''A''], [''X'', ''T'']]
     \<lparr>fw_word = ''CAT'', fw_start = \<lparr>row = 0, col = 0\<rparr>, fw_end = \<lparr>row = 1, col = 1\<rparr>,
      fw_path = [\<lparr>row = 0, col = 0\<rparr>, \<lparr>row = 0, col = 1\<rparr>, \<lparr>row = 1, col = 1\<rparr>]\<rparr>"
proof -
  let ?g = "[[''C'', ''A''], [''X'', ''T'']]"
  let ?S = "new_WordSearchSolver ?g [''CAT'']"
  let ?f = "\<lparr>fw_word = ''CAT'', fw_start = \<lparr>row = 0, col = 0\<rparr>, fw_end = \<lparr>row = 1, col = 1\<rparr>,
      fw_path = [\<lparr>row = 0, col = 0\<rparr>, \<lparr>row = 0, col = 1\<rparr>, \<lparr>row = 1, col = 1\<rparr>]\<rparr>"
  have h: "rect (length ?g) 2 ?g"
    by (simp add: rect_def)
  have ev: "findAllWords ?S = Inr [?f]"
    by code_simp
  from found_words_well_formed [of ?g "[''CAT'']" _ _ _ 2] h obtain found
    where r: "findAllWords ?S = Inr found" "list_all (found_ok ?S) found"
      "list_all (on_grid ?g) found"
    by blast
  from r(1) have "found = [?f]" unfolding ev by simp
  with r(2,3) have "found_ok ?S ?f" "on_grid ?g ?f" by simp_all
  with h ev show ?thesis by simp
qed

text \<open>
  C6. \<open>findNextWord\<close> respects its step budget. The counter \<open>attempts\<close> of a call counts
  the nodes its searches visit, over all starting cells. It is never negative; it never
  exceeds a budget \<open>maxAttempts\<close> that is not negative; and with \<open>maxAttempts = 0\<close> (or
  less) no node is visited and the result is none, for every grid, word list, order of
  the starting cells and list of found words.
\<close>

theorem findNextWord_respects_budget:
  "\<exists>found attempts.
     findNextWord_attempts (new_WordSearchSolver g ws) rnd alreadyFound maxAttempts =
       Inr (found, attempts) \<and>
     findNextWord (new_WordSearchSolver g ws) rnd alreadyFound maxAttempts = Inr found \<and>
     0 \<le> attempts \<and> (0 \<le> maxAttempts \<longrightarrow> attempts \<le> maxAttempts) \<and>
     (maxAttempts \<le> 0 \<longrightarrow> found = None \<and> attempts = 0)"
proof -
  let ?S = "new_WordSearchSolver g ws"
  from findNextWord_loop_ok [OF solver_ok_new, of g ws "set alreadyFound" maxAttempts 0
      "getShuffledPositions ?S rnd"]
  obtain found a where
    r: "findNextWord_attempts ?S rnd alreadyFound maxAttempts = Inr (found, a)"
       "0 \<le> a" "a \<le> max 0 maxAttempts" "maxAttempts \<le> 0 \<longrightarrow> found = None \<and> a = 0"
    unfolding findNextWord_attempts_def by blast
  then have "findNextWord ?S rnd alreadyFound maxAttempts = Inr found"
    by (simp add: findNextWord_def)
  with r show ?thesis by auto
qed

theorem findNextWord_respects_budget_witness:
  "(0 :: int) \<le> 3 \<and>
   findNextWord_attempts (new_WordSearchSolver [[''C'', ''A''], [''X'', ''T'']] [''CAT''])
     (rnd_of_list []) [] 3 = Inr (None, 3) \<and>
   (3 :: int) \<le> 3 \<and>
   (0 :: int) \<le> 0 \<and>
   findNextWord (new_WordSearchSolver [[''C'', ''A''], [''X'', ''T'']] [''CAT''])
     (rnd_of_list []) [] 0 = Inr None"
proof -
  let ?S = "new_WordSearchSolver [[''C'', ''A''], [''X'', ''T'']] [''CAT'']"
  have ev: "findNextWord_attempts ?S (rnd_of_list []) [] 3 = Inr (None, 3)"
    by code_simp
  from findNextWord_respects_budget
    [of "[[''C'', ''A''], [''X'', ''T'']]" "[''CAT'']" "rnd_of_list []" "[]" 0]
  have "findNextWord ?S (rnd_of_list []) [] 0 = Inr None" by auto
  moreover
  from findNextWord_respects_budget
    [of "[[''C'', ''A''], [''X'', ''T'']]" "[''CAT'']" "rnd_of_list []" "[]" 3]
  have "\<exists>found attempts. findNextWord_attempts ?S (rnd_of_list []) [] 3 = Inr (found, attempts) \<and>
          attempts \<le> 3" by auto
  ultimately show ?thesis using ev by simp
qed

text \<open>
  C10. A solver constructed on a grid without rows, or on a grid whose first row is
  empty, has \<open>cols = 0\<close>; there is no starting cell, so no search is entered and no cell
  of the grid is read; \<open>findAllWords\<close> returns the empty list and \<open>findNextWord\<close> returns
  none, with no node visited, for every list of found words and every budget.
\<close>

theorem degenerate_grid_safe:
  assumes "g = [] \<or> hd g = []"
  shows "solver_cols (new_WordSearchSolver g ws) = 0 \<and>
         all_positions (new_WordSearchSolver g ws) = [] \<and>
         getShuffledPositions (new_WordSearchSolver g ws) rnd = [] \<and>
         findAllWords (new_WordSearchSolver g ws) = Inr [] \<and>
         findNextWord_attempts (new_WordSearchSolver g ws) rnd alreadyFound maxAttempts =
           Inr (None, 0) \<and>
         findNextWord (new_WordSearchSolver g ws) rnd alreadyFound maxAttempts = Inr None"
proof -
  let ?S = "new_WordSearchSolver g ws"
  from assms have cols: "solver_cols ?S = 0"
    by (cases g) (auto simp: new_WordSearchSolver_def)
  then have pos: "all_positions ?S = []" by (rule all_positions_no_cols)
  then have sh: "getShuffledPositions ?S rnd = []"
    by (simp add: getShuffledPositions_def)
  from pos have "findAllWords ?S = Inr []" by (simp add: findAllWords_def)
  moreover from sh have "findNextWord_attempts ?S rnd alreadyFound maxAttempts = Inr (None, 0)"
    by (simp add: findNextWord_attempts_def)
  moreover from this have "findNextWord ?S rnd alreadyFound maxAttempts = Inr None"
    by (simp add: findNextWord_def)
  ultimately show ?thesis using cols pos sh by simp
qed

theorem degenerate_grid_safe_witness:
  "hd ([[], [''A'']] :: Grid) = [] \<and>
   solver_cols (new_WordSearchSolver [[], [''A'']] [''A'']) = 0 \<and>
   findAllWords (new_WordSearchSolver [[], [''A'']] [''A'']) = Inr [] \<and>
   findNextWord (new_WordSearchSolver [[], [''A'']] [''A'']) (rnd_of_list []) [] 100 = Inr None \<and>
   findAllWords (new_WordSearchSolver [] [''A'']) = Inr []"
proof -
  have h1: "([[], [''A'']] :: Grid) = [] \<or> hd ([[], [''A'']] :: Grid) = []" by simp
  have h2: "([] :: Grid) = [] \<or> hd ([] :: Grid) = []" by simp
  from degenerate_grid_safe [OF h1, of "[''A'']" "rnd_of_list []" "[]" 100]
    degenerate_grid_safe [OF h2, of "[''A'']" "rnd_of_list []" "[]" 100]
  show ?thesis by simp
qed

section \<open>Properties of the opponent scheduler\<close>

lemma is_solver_new: "is_solver (new_WordSearchSolver g ws)"
  unfolding is_solver_def by blast

lemma timers_after_cleanup:
  assumes "hook_inv s"
  shows "timers (if cleanup_set s then turn_cleanup s else s) = []"
proof (cases "cleanup_set s")
  case False
  with assms show ?thesis by (simp add: hook_inv_def)
next
  case True
  from assms have all: "list_all (\<lambda>e. turnTimeoutRef s = Some (fst e)) (timers s)"
    by (simp add: hook_inv_def)
  show ?thesis
  proof (cases "turnTimeoutRef s")
    case None
    with all have "timers s = []" by (cases "timers s") simp_all
    with True None show ?thesis by (simp add: turn_cleanup_def)
  next
    case (Some h)
    with all have "filter (\<lambda>e. fst e \<noteq> h) (timers s) = []"
      by (auto simp: list_all_iff filter_empty_conv)
    with True Some show ?thesis by (simp add: turn_cleanup_def clearTimeout_def)
  qed
qed

lemma findNextWord_new_returns:
  "\<exists>res. findNextWord (new_WordSearchSolver g ws) rnd af m = Inr res"
proof -
  from findNextWord_loop_ok [OF solver_ok_new, of g ws "set af" m 0
      "getShuffledPositions (new_WordSearchSolver g ws) rnd"]
  obtain res a where "findNextWord_attempts (new_WordSearchSolver g ws) rnd af m = Inr (res, a)"
    unfolding findNextWord_attempts_def by blast
  then show ?thesis by (simp add: findNextWord_def)
qed

text \<open>
  The deferred action does not throw, and it calls the callback only with the word that
  \<open>findNextWord\<close> returned.
\<close>

lemma deferred_action_calls:
  assumes "case solverRef s of None \<Rightarrow> True | Some S \<Rightarrow> is_solver S"
  shows "\<exists>s'. deferred_action pm rnd s = Inr s' \<and>
           solverRef s' = solverRef s \<and> turnTimeoutRef s' = turnTimeoutRef s \<and>
           timers s' = timers s \<and> cleanup_set s' = cleanup_set s \<and>
           (calls s' = calls s \<or>
            (\<exists>S result. solverRef s = Some S \<and>
               findNextWord S rnd (pm_playerFoundWords pm @ pm_cpuFoundWords pm) 500 =
                 Inr (Some result) \<and>
               calls s' = calls s @
                 [\<lparr>wl_word = fw_word result, wl_start = fw_start result,
                   wl_end = fw_end result\<rparr>]))"
proof (cases "solverRef s")
  case None
  then show ?thesis by (simp add: deferred_action_def)
next
  case (Some S)
  with assms obtain g ws where S: "S = new_WordSearchSolver g ws"
    unfolding is_solver_def by auto
  from findNextWord_new_returns [of g ws rnd "pm_playerFoundWords pm @ pm_cpuFoundWords pm" 500]
  obtain res where
    res: "findNextWord S rnd (pm_playerFoundWords pm @ pm_cpuFoundWords pm) 500 = Inr res"
    unfolding S by blast
  show ?thesis
  proof (cases res)
    case None
    with Some res show ?thesis by (simp add: deferred_action_def)
  next
    case (Some result)
    with \<open>solverRef s = Some S\<close> res show ?thesis by (simp add: deferred_action_def)
  qed
qed

lemma timer_fires_calls:
  assumes "hook_inv s"
  shows "\<exists>s'. timer_fires h rnd s = Inr s' \<and> hook_inv s' \<and>
           (calls s' = calls s \<or>
            (\<exists>S pm result. solverRef s = Some S \<and> map_of (timers s) h = Some pm \<and>
               findNextWord S rnd (pm_playerFoundWords pm @ pm_cpuFoundWords pm) 500 =
                 Inr (Some result) \<and>
               calls s' = calls s @
                 [\<lparr>wl_word = fw_word result, wl_start = fw_start result,
                   wl_end = fw_end result\<rparr>]))"
proof (cases "map_of (timers s) h")
  case None
  with assms show ?thesis by (simp add: timer_fires_def)
next
  case (Some pm)
  let ?s1 = "clearTimeout h s"
  from assms have inv1: "hook_inv ?s1"
    by (auto simp: hook_inv_def clearTimeout_def list_all_iff)
  then have "case solverRef ?s1 of None \<Rightarrow> True | Some S \<Rightarrow> is_solver S"
    by (simp add: hook_inv_def)
  from deferred_action_calls [OF this, of pm rnd] obtain s' where
    s': "deferred_action pm rnd ?s1 = Inr s'" "solverRef s' = solverRef ?s1"
      "turnTimeoutRef s' = turnTimeoutRef ?s1" "timers s' = timers ?s1"
      "cleanup_set s' = cleanup_set ?s1"
      "calls s' = calls ?s1 \<or>
            (\<exists>S result. solverRef ?s1 = Some S \<and>
               findNextWord S rnd (pm_playerFoundWords pm @ pm_cpuFoundWords pm) 500 =
                 Inr (Some result) \<and>
               calls s' = calls ?s1 @
                 [\<lparr>wl_word = fw_word result, wl_start = fw_start result,
                   wl_end = fw_end result\<rparr>])"
    by blast
  from inv1 s'(2-5) have "hook_inv s'" by (simp add: hook_inv_def)
  moreover have "timer_fires h rnd s = Inr s'"
    using Some s'(1) by (simp add: timer_fires_def)
  moreover have "solverRef ?s1 = solverRef s" "calls ?s1 = calls s"
    by (simp_all add: clearTimeout_def)
  ultimately show ?thesis using s'(6) Some by auto
qed

lemma hook_inv_turn_rerender:
  assumes "hook_inv s"
  shows "hook_inv (turn_rerender props s)"
proof -
  let ?s0 = "if cleanup_set s then turn_cleanup s else s"
  from timers_after_cleanup [OF assms] have t: "timers ?s0 = []" .
  have sol: "solverRef ?s0 = solverRef s"
    by (simp add: turn_cleanup_def clearTimeout_def split: option.splits)
  with assms have
    "case solverRef ?s0 of None \<Rightarrow> True | Some S \<Rightarrow> is_solver S"
    by (simp add: hook_inv_def)
  with t show ?thesis
    unfolding turn_rerender_def
    by (auto simp: hook_inv_def turn_effect_def setTimeout_def clearTimeout_def
        split: option.splits)
qed

lemma hook_inv_step:
  assumes "hook_inv s" and "step e s = Inr s'"
  shows "hook_inv s'"
proof (cases e)
  case (Solver_effect props)
  with assms(2) have s': "s' = solver_effect props s" by simp
  have same: "turnTimeoutRef s' = turnTimeoutRef s" "timers s' = timers s"
      "cleanup_set s' = cleanup_set s"
    unfolding s' by (simp_all add: solver_effect_def split: option.splits)
  have "solverRef s' = solverRef s \<or> (\<exists>g ws. solverRef s' = Some (new_WordSearchSolver g ws))"
    unfolding s' by (cases "p_grid props") (auto simp: solver_effect_def)
  with assms(1) have
    "case solverRef s' of None \<Rightarrow> True | Some S \<Rightarrow> is_solver S"
    by (auto simp: hook_inv_def is_solver_new split: option.splits)
  with assms(1) same show ?thesis by (simp add: hook_inv_def)
next
  case (Turn_effect props)
  with assms hook_inv_turn_rerender [OF assms(1), of props] show ?thesis by simp
next
  case Unmount
  from timers_after_cleanup [OF assms(1)] have "cleanup_set s \<longrightarrow> timers (turn_cleanup s) = []"
    by (auto split: if_splits)
  moreover have "solverRef (turn_cleanup s) = solverRef s"
    by (simp add: turn_cleanup_def clearTimeout_def split: option.splits)
  ultimately show ?thesis using assms Unmount
    by (auto simp: hook_inv_def unmount_def)
next
  case (Timer h rnd)
  with assms timer_fires_calls [OF assms(1), of h rnd] show ?thesis by auto
qed

lemma hook_inv_init: "hook_inv hook_init"
  by (simp add: hook_inv_def hook_init_def)

lemma hook_inv_run: "hook_inv s \<Longrightarrow> run evs s = Inr s' \<Longrightarrow> hook_inv s'"
proof (induction evs arbitrary: s)
  case Nil
  then show ?case by simp
next
  case (Cons e evs)
  from Cons.prems(2) obtain s1 where s1: "step e s = Inr s1" "run evs s1 = Inr s'"
    by (auto split: sum.splits)
  from hook_inv_step [OF Cons.prems(1) s1(1)] have "hook_inv s1" .
  from Cons.IH [OF this s1(2)] show ?case .
qed

lemma calls_turn_rerender: "calls (turn_rerender props s) = calls s"
  by (simp add: turn_rerender_def turn_effect_def turn_cleanup_def clearTimeout_def
      setTimeout_def split: option.splits)

lemma cancelled_timers:
  assumes "hook_inv s \<or> timers s = []" and "\<not> p_isCpuTurn props \<or> \<not> p_gameActive props"
  shows "timers (turn_rerender props s) = []"
proof -
  let ?s0 = "if cleanup_set s then turn_cleanup s else s"
  from assms(1) have "timers ?s0 = []"
  proof
    assume "hook_inv s"
    then show ?thesis by (rule timers_after_cleanup)
  next
    assume "timers s = []"
    then show ?thesis by (simp add: turn_cleanup_def clearTimeout_def split: option.splits)
  qed
  with assms(2) show ?thesis
    unfolding turn_rerender_def
    by (auto simp: turn_effect_def clearTimeout_def split: option.splits)
qed

text \<open>While no timer is live, an event that is off turn starts none and calls nothing.\<close>

lemma step_off_turn:
  assumes "timers s = []" and "off_turn e"
  shows "\<exists>s'. step e s = Inr s' \<and> timers s' = [] \<and> calls s' = calls s"
proof (cases e)
  case (Solver_effect props)
  with assms(1) show ?thesis by (simp add: solver_effect_def split: option.splits)
next
  case (Turn_effect props)
  with assms(2) have "\<not> p_isCpuTurn props \<or> \<not> p_gameActive props"
    by (simp add: off_turn_def)
  with assms(1) have "timers (turn_rerender props s) = []"
    using cancelled_timers [of s props] by simp
  with Turn_effect show ?thesis by (simp add: calls_turn_rerender)
next
  case Unmount
  with assms(1) show ?thesis
    by (simp add: unmount_def turn_cleanup_def clearTimeout_def split: option.splits)
next
  case (Timer h rnd)
  with assms(1) show ?thesis by (simp add: timer_fires_def)
qed

lemma run_off_turn:
  "timers s = [] \<Longrightarrow> list_all off_turn evs \<Longrightarrow>
   \<exists>s'. run evs s = Inr s' \<and> timers s' = [] \<and> calls s' = calls s"
proof (induction evs arbitrary: s)
  case Nil
  then show ?case by simp
next
  case (Cons e evs)
  from Cons.prems(2) have e: "off_turn e" and evs: "list_all off_turn evs" by simp_all
  from step_off_turn [OF Cons.prems(1) e] obtain s1 where
    s1: "step e s = Inr s1" "timers s1 = []" "calls s1 = calls s" by blast
  from Cons.IH [OF s1(2) evs] obtain s' where
    "run evs s1 = Inr s'" "timers s' = []" "calls s' = calls s1" by blast
  with s1 show ?case by simp
qed

text \<open>Only the action of a timer calls the callback.\<close>

lemma step_calls:
  assumes "hook_inv s"
  shows "\<exists>s'. step e s = Inr s' \<and>
           (calls s' = calls s \<or>
            (\<exists>h rnd S pm result. e = Timer h rnd \<and> solverRef s = Some S \<and>
               map_of (timers s) h = Some pm \<and>
               findNextWord S rnd (pm_playerFoundWords pm @ pm_cpuFoundWords pm) 500 =
                 Inr (Some result) \<and>
               calls s' = calls s @
                 [\<lparr>wl_word = fw_word result, wl_start = fw_start result,
                   wl_end = fw_end result\<rparr>]))"
proof (cases e)
  case (Solver_effect props)
  then show ?thesis by (simp add: solver_effect_def split: option.splits)
next
  case (Turn_effect props)
  then show ?thesis by (simp add: calls_turn_rerender)
next
  case Unmount
  then show ?thesis
    by (simp add: unmount_def turn_cleanup_def clearTimeout_def split: option.splits)
next
  case (Timer h rnd)
  from timer_fires_calls [OF assms, of h rnd] obtain s' where
    s': "timer_fires h rnd s = Inr s'"
      "calls s' = calls s \<or>
            (\<exists>S pm result. solverRef s = Some S \<and> map_of (timers s) h = Some pm \<and>
               findNextWord S rnd (pm_playerFoundWords pm @ pm_cpuFoundWords pm) 500 =
                 Inr (Some result) \<and>
               calls s' = calls s @
                 [\<lparr>wl_word = fw_word result, wl_start = fw_start result,
                   wl_end = fw_end result\<rparr>])"
    by blast
  from s'(2) show ?thesis
  proof
    assume "calls s' = calls s"
    with s'(1) Timer show ?thesis by simp
  next
    assume "\<exists>S pm result. solverRef s = Some S \<and> map_of (timers s) h = Some pm \<and>
               findNextWord S rnd (pm_playerFoundWords pm @ pm_cpuFoundWords pm) 500 =
                 Inr (Some result) \<and>
               calls s' = calls s @
                 [\<lparr>wl_word = fw_word result, wl_start = fw_start result,
                   wl_end = fw_end result\<rparr>]"
    then obtain S pm result where
      "solverRef s = Some S" "map_of (timers s) h = Some pm"
      "findNextWord S rnd (pm_playerFoundWords pm @ pm_cpuFoundWords pm) 500 =
         Inr (Some result)"
      "calls s' = calls s @
         [\<lparr>wl_word = fw_word result, wl_start = fw_start result, wl_end = fw_end result\<rparr>]"
      by blast
    with s'(1) Timer show ?thesis by simp
  qed
qed


section \<open>Claim about the opponent scheduler\<close>

text \<open>
  C9. In every state that the hook reaches from its mount, by any events in any order:
  when the turn effect runs again with \<open>isCpuTurn\<close> false or \<open>gameActive\<close> false, no timer
  is live afterwards (the pending deferred action is cancelled, whether its delay would
  have elapsed later or not), the callback is not called by that, and it is not called
  by any later events either, timers of the runtime included, as long as no run of the
  turn effect starts a turn of the opponent again. And every event returns, and calls the
  callback either not at all or once: only the action of a live timer calls it, and only
  with the word, start and end of a result that \<open>findNextWord\<close>, with the found words the
  action captured and the budget 500, returned; never when \<open>findNextWord\<close> returned none.
\<close>

theorem opponent_cancels_pending_move:
  assumes "run evs hook_init = Inr s"
  shows "(\<not> p_isCpuTurn props \<or> \<not> p_gameActive props \<longrightarrow>
            timers (turn_rerender props s) = [] \<and>
            calls (turn_rerender props s) = calls s \<and>
            (\<forall>later. list_all off_turn later \<longrightarrow>
               (\<exists>s'. run later (turn_rerender props s) = Inr s' \<and> timers s' = [] \<and>
                  calls s' = calls s))) \<and>
         (\<exists>s'. step e s = Inr s' \<and>
            (calls s' = calls s \<or>
             (\<exists>h rnd S pm result. e = Timer h rnd \<and> solverRef s = Some S \<and>
                map_of (timers s) h = Some pm \<and>
                findNextWord S rnd (pm_playerFoundWords pm @ pm_cpuFoundWords pm) 500 =
                  Inr (Some result) \<and>
                calls s' = calls s @
                  [\<lparr>wl_word = fw_word result, wl_start = fw_start result,
                    wl_end = fw_end result\<rparr>])))"
proof -
  from hook_inv_run [OF hook_inv_init assms] have inv: "hook_inv s" .
  have "timers (turn_rerender props s) = [] \<and>
        calls (turn_rerender props s) = calls s \<and>
        (\<forall>later. list_all off_turn later \<longrightarrow>
           (\<exists>s'. run later (turn_rerender props s) = Inr s' \<and> timers s' = [] \<and>
              calls s' = calls s))"
    if off: "\<not> p_isCpuTurn props \<or> \<not> p_gameActive props"
  proof -
    from inv off have t: "timers (turn_rerender props s) = []"
      using cancelled_timers [of s props] by simp
    have "\<exists>s'. run later (turn_rerender props s) = Inr s' \<and> timers s' = [] \<and>
            calls s' = calls s"
      if "list_all off_turn later" for later
      using run_off_turn [OF t that] by (simp add: calls_turn_rerender)
    with t show ?thesis by (simp add: calls_turn_rerender)
  qed
  with step_calls [OF inv, of e] show ?thesis by blast
qed

theorem opponent_cancels_pending_move_witness:
  "(\<exists>s. run [Solver_effect
               \<lparr>p_grid = Some [[''C'', ''A''], [''X'', ''T'']], p_words = [''CAT''],
                p_playerFoundWords = [], p_cpuFoundWords = [],
                p_isCpuTurn = True, p_gameActive = True\<rparr>,
             Turn_effect
               \<lparr>p_grid = Some [[''C'', ''A''], [''X'', ''T'']], p_words = [''CAT''],
                p_playerFoundWords = [], p_cpuFoundWords = [],
                p_isCpuTurn = True, p_gameActive = True\<rparr>] hook_init = Inr s \<and>
        map fst (timers s) = [1] \<and> turnTimeoutRef s = Some 1 \<and> calls s = [] \<and>
        \<not> p_isCpuTurn
            \<lparr>p_grid = Some [[''C'', ''A''], [''X'', ''T'']], p_words = [''CAT''],
             p_playerFoundWords = [], p_cpuFoundWords = [],
             p_isCpuTurn = False, p_gameActive = True\<rparr> \<and>
        timers (turn_rerender
            \<lparr>p_grid = Some [[''C'', ''A''], [''X'', ''T'']], p_words = [''CAT''],
             p_playerFoundWords = [], p_cpuFoundWords = [],
             p_isCpuTurn = False, p_gameActive = True\<rparr> s) = [] \<and>
        list_all off_turn [Timer 1 (rnd_of_list []), Unmount] \<and>
        (\<exists>s'. run [Timer 1 (rnd_of_list []), Unmount]
                (turn_rerender
                  \<lparr>p_grid = Some [[''C'', ''A''], [''X'', ''T'']], p_words = [''CAT''],
                   p_playerFoundWords = [], p_cpuFoundWords = [],
                   p_isCpuTurn = False, p_gameActive = True\<rparr> s) = Inr s' \<and>
              calls s' = []) \<and>
        (\<exists>s'. step (Timer 1 (rnd_of_list [])) s = Inr s' \<and>
              calls s' =
                [\<lparr>wl_word = ''CAT'', wl_start = \<lparr>row = 0, col = 0\<rparr>,
                  wl_end = \<lparr>row = 1, col = 1\<rparr>\<rparr>]))"
proof -
  let ?g = "[[''C'', ''A''], [''X'', ''T'']]"
  let ?S = "new_WordSearchSolver ?g [''CAT'']"
  let ?on = "\<lparr>p_grid = Some ?g, p_words = [''CAT''], p_playerFoundWords = [],
              p_cpuFoundWords = [], p_isCpuTurn = True, p_gameActive = True\<rparr>"
  let ?off = "\<lparr>p_grid = Some ?g, p_words = [''CAT''], p_playerFoundWords = [],
               p_cpuFoundWords = [], p_isCpuTurn = False, p_gameActive = True\<rparr>"
  let ?pm = "\<lparr>pm_playerFoundWords = [], pm_cpuFoundWords = []\<rparr>"
  let ?s = "\<lparr>solverRef = Some ?S, turnTimeoutRef = Some 1, timers = [(1, ?pm)],
             next_handle = 2, cleanup_set = True, calls = []\<rparr>"
  let ?ev = "Timer 1 (rnd_of_list [])"
  let ?loc = "\<lparr>wl_word = ''CAT'', wl_start = \<lparr>row = 0, col = 0\<rparr>,
               wl_end = \<lparr>row = 1, col = 1\<rparr>\<rparr>"
  have ev: "run [Solver_effect ?on, Turn_effect ?on] hook_init = Inr ?s"
    by (simp add: hook_init_def solver_effect_def turn_rerender_def turn_effect_def
        setTimeout_def)
  have fw: "findNextWord ?S (rnd_of_list []) [] 500 =
      Inr (Some \<lparr>fw_word = ''CAT'', fw_start = \<lparr>row = 0, col = 0\<rparr>,
                 fw_end = \<lparr>row = 1, col = 1\<rparr>,
                 fw_path = [\<lparr>row = 0, col = 0\<rparr>, \<lparr>row = 0, col = 1\<rparr>, \<lparr>row = 1, col = 1\<rparr>]\<rparr>)"
    by code_simp
  have fires: "step ?ev ?s =
      Inr (\<lparr>solverRef = Some ?S, turnTimeoutRef = Some 1, timers = [],
            next_handle = 2, cleanup_set = True, calls = [?loc]\<rparr>)"
    by (simp add: timer_fires_def deferred_action_def clearTimeout_def fw)
  have off: "list_all off_turn [?ev, Unmount]"
    by (simp add: off_turn_def)
  have nt: "\<not> p_isCpuTurn ?off \<or> \<not> p_gameActive ?off"
    by simp
  note r = opponent_cancels_pending_move [OF ev, of ?off ?ev, THEN conjunct1, THEN mp, OF nt]
  have c: "timers (turn_rerender ?off ?s) = []"
    using r by (rule conjunct1)
  have l: "\<exists>s'. run [?ev, Unmount] (turn_rerender ?off ?s) = Inr s' \<and> timers s' = [] \<and>
             calls s' = calls ?s"
    using r [THEN conjunct2, THEN conjunct2, THEN spec, of "[?ev, Unmount]", THEN mp, OF off] .
  from l have l': "\<exists>s'. run [?ev, Unmount] (turn_rerender ?off ?s) = Inr s' \<and> calls s' = []"
    by auto
  have f: "\<exists>s'. step ?ev ?s = Inr s' \<and> calls s' = [?loc]"
    unfolding fires by simp
  show ?thesis
    apply (rule exI [of _ ?s])
    using ev off c l' f by simp
qed

end
